theory Spec2Isabelle
  imports Main
begin

section \<open>Types, errors and helper functions\<close>

text \<open>
  \<open>AssemblyType\<close> of \<open>assembly/types.py\<close>: the three primitive types and, for a
  contract type, the qualified name of its class (a Python \<open>str\<close>). A type that is
  still unknown is Python's \<open>None\<close>, here \<open>None\<close> of an option.
\<close>

datatype assembly_type = Uint | Long | Address | ClassType string

text \<open>
  Every exception class the modelled code raises is a constructor. A message is kept
  as the source writes it; \<open>AssemblyTypeError\<close> keeps the message's fixed text and the
  types its f-string interpolates (written \<open>{}\<close> in the text). \<open>RecursionError\<close> is
  Python's built-in exception of that name; no modelled function raises it.
\<close>

datatype error =
    TxRejectedException string
  | ValueError string
  | AssertionError string
  | AssemblySecurityException string
  | AssemblyTypeError string "assembly_type option list"
  | AttributeError
  | IndexError
  | KeyError
  | RecursionError

text \<open>Sequencing of calls that may raise.\<close>

definition sum_bind :: "error + 'a \<Rightarrow> ('a \<Rightarrow> error + 'b) \<Rightarrow> error + 'b" where
  "sum_bind m f = (case m of Inl e \<Rightarrow> Inl e | Inr x \<Rightarrow> f x)"

text \<open>\<open>hex(x)\<close> and \<open>str(n)\<close> of Python, \<open>sep.join(xs)\<close>, and \<open>to_hex_str\<close> of
  \<open>utils/general.py\<close>.\<close>

fun hex_digits :: "nat \<Rightarrow> string" where
  "hex_digits n =
     (if n < 16 then [''0123456789abcdef'' ! n]
      else hex_digits (n div 16) @ [''0123456789abcdef'' ! (n mod 16)])"

fun str_nat :: "nat \<Rightarrow> string" where
  "str_nat n =
     (if n < 10 then [''0123456789'' ! n]
      else str_nat (n div 10) @ [''0123456789'' ! (n mod 10)])"

fun join :: "string \<Rightarrow> string list \<Rightarrow> string" where
  "join sep [] = []"
| "join sep [x] = x"
| "join sep (x # y # ys) = x @ sep @ join sep (y # ys)"

definition py_hex :: "int \<Rightarrow> string" where
  "py_hex x = (if x < 0 then ''-0x'' @ hex_digits (nat (- x)) else ''0x'' @ hex_digits (nat x))"

definition to_hex_str :: "int \<Rightarrow> string" where
  "to_hex_str x =
     (let s = drop 2 (py_hex x)
      in if length s mod 2 \<noteq> 0 then ''0'' @ s else s)"

text \<open>\<open>get_duplicates\<close> of \<open>utils/general.py\<close>: the loop with its two accumulators.\<close>

fun get_duplicates_loop :: "'a list \<Rightarrow> 'a set \<Rightarrow> 'a list \<Rightarrow> 'a list" where
  "get_duplicates_loop [] unique duplicates = duplicates"
| "get_duplicates_loop (x # xs) unique duplicates =
     (if x \<in> unique then get_duplicates_loop xs unique (duplicates @ [x])
      else get_duplicates_loop xs (insert x unique) duplicates)"

definition get_duplicates :: "'a list \<Rightarrow> 'a list" where
  "get_duplicates it = get_duplicates_loop it {} []"

section \<open>The IR (\<open>assembly/values.py\<close>, \<open>assembly/instructions\<close>, \<open>assembly/functions.py\<close>)\<close>

text \<open>
  A \<open>Register\<close> is a mutable object compared by identity: two registers may carry the
  same label and still be different objects, and a type or slot written through one
  reference is seen through every other. A register is therefore a reference (a natural
  number) into a store of register objects; \<open>fresh\<close> is the next unused reference, taken
  by the constructor \<open>Register(label)\<close>.
\<close>

record register =
  label :: string
  assembly_type :: "assembly_type option"
  location :: int

record heap =
  cells :: "nat \<Rightarrow> register"
  fresh :: nat

definition new_register :: "heap \<Rightarrow> string \<Rightarrow> nat \<times> heap" where
  "new_register h lbl =
     (fresh h,
      h\<lparr>cells := (cells h)(fresh h := \<lparr>label = lbl, assembly_type = None, location = - 1\<rparr>),
        fresh := Suc (fresh h)\<rparr>)"

definition set_type :: "heap \<Rightarrow> nat \<Rightarrow> assembly_type option \<Rightarrow> heap" where
  "set_type h r t = h\<lparr>cells := (cells h)(r := (cells h r)\<lparr>assembly_type := t\<rparr>)\<rparr>"

definition set_location :: "heap \<Rightarrow> nat \<Rightarrow> int \<Rightarrow> heap" where
  "set_location h r n = h\<lparr>cells := (cells h)(r := (cells h r)\<lparr>location := n\<rparr>)\<rparr>"

text \<open>\<open>Register.clone(postfix)\<close> with a postfix that is not \<open>None\<close>.\<close>

definition clone :: "heap \<Rightarrow> nat \<Rightarrow> string \<Rightarrow> nat \<times> heap" where
  "clone h r postfix = new_register h (label (cells h r) @ ''#'' @ postfix)"

text \<open>
  What a \<open>FieldReference\<close>, a \<open>NEW\<close> or a \<open>CALL\<close> points to: a symbolic reference
  before linking, the linked object afterwards. A linked object is named by its class
  and its own name; a linked function also carries its argument registers and its
  return register, which the code reads through the reference and never reassigns.
\<close>

datatype field_target =
    QualifiedReference string string assembly_type
  | AssemblyField string string

datatype class_target = ClassName string | AssemblyClass string

datatype function_target =
    FunctionReference string string assembly_type
  | AssemblyFunction string string "nat list" nat

datatype val =
    Register nat
  | Constant int assembly_type
  | FieldReference field_target assembly_type
  | ClassReference class_target

datatype binary_operator = PLUS | MINUS | MULTIPLY | EQUALS | LESS

text \<open>
  An instruction object: its class (with the attributes the subclass adds) and the
  three attributes \<open>register\<close>, \<open>value_1\<close>, \<open>value_2\<close> of the base class.
\<close>

datatype instruction_class =
    NoOpInstruction
  | MoveInstruction
  | ConditionalMoveInstruction
  | RequireInstruction
  | LoadInstruction
  | StoreInstruction
  | KillInstruction
  | PublicKeyInstruction
  | NewInstruction class_target
  | CidInstruction
  | FreshInstruction
  | NowInstruction
  | BinaryOperationInstruction binary_operator
  | CallInstruction function_target "val list" bool

datatype instruction =
  Instruction (iclass: instruction_class) (register: "nat option")
              (value_1: "val option") (value_2: "val option")

fun is_call :: "instruction \<Rightarrow> bool" where
  "is_call (Instruction (CallInstruction f args s) r v1 v2) = True"
| "is_call i = False"

fun is_new :: "instruction \<Rightarrow> bool" where
  "is_new (Instruction (NewInstruction c) r v1 v2) = True"
| "is_new i = False"

fun is_store :: "instruction \<Rightarrow> bool" where
  "is_store (Instruction StoreInstruction r v1 v2) = True"
| "is_store i = False"


text \<open>\<open>get_arguments\<close> (overridden by \<open>CallInstruction\<close>) and \<open>get_registers\<close>.\<close>

fun get_arguments :: "instruction \<Rightarrow> val option list" where
  "get_arguments (Instruction (CallInstruction f call_arguments s) r v1 v2) =
     map_option Register r # map Some call_arguments"
| "get_arguments (Instruction c r v1 v2) = [map_option Register r, v1, v2]"

fun registers_of :: "val option list \<Rightarrow> nat list" where
  "registers_of [] = []"
| "registers_of (Some (Register r) # as) = r # registers_of as"
| "registers_of (a # as) = registers_of as"

definition get_registers :: "instruction \<Rightarrow> nat list" where
  "get_registers i = registers_of (get_arguments i)"

record assembly_function =
  function_name :: string
  instructions :: "instruction list"
  runtime_type_check_instructions :: "instruction list"
  me_register :: nat
  argument_registers :: "nat list"
  return_register :: nat
  is_constructor :: bool
  is_private :: bool
  is_private_for :: "string option"

definition get_all_instructions :: "assembly_function \<Rightarrow> instruction list" where
  "get_all_instructions f = runtime_type_check_instructions f @ instructions f"

text \<open>
  \<open>AssemblyFunction.get_registers\<close> returns a Python set of register objects. It is
  kept as the duplicate-free list of its elements; Python does not fix the order in
  which the set is enumerated.
\<close>

definition function_registers :: "assembly_function \<Rightarrow> nat list" where
  "function_registers f =
     remdups (concat (map get_registers (get_all_instructions f)) @ [me_register f])"

record assembly_field =
  field_name :: string
  field_type :: assembly_type
  field_location :: "int option"

text \<open>
  The two dictionaries \<open>fields\<close> and \<open>functions\<close> of an \<open>AssemblyClass\<close> are kept in
  insertion order (named \<open>class_fields\<close> and \<open>class_functions\<close> here); the key of
  an entry is the name its value carries (\<open>add_field\<close> and \<open>add_function\<close> store a value
  under its own name).
\<close>

record assembly_class =
  qualified_name :: string
  has_address :: bool
  class_fields :: "assembly_field list"
  class_functions :: "assembly_function list"
  class_id :: "int option"

section \<open>Type checking of instructions (\<open>assembly/types.py\<close>, \<open>assembly/instructions\<close>)\<close>



definition is_address :: "assembly_type option \<Rightarrow> bool" where
  "is_address t = (t = Some Address)"











section \<open>Register labels (\<open>AssemblyFunction.check_register_labels\<close>)\<close>

definition check_register_labels :: "heap \<Rightarrow> assembly_function \<Rightarrow> error + unit" where
  "check_register_labels h f =
     (let registers = function_registers f;
          names = map (\<lambda>r. label (cells h r)) registers;
          with_dot = filter (\<lambda>n. ''.'' \<in> set names) names
      in if length with_dot > 0
         then Inl (AssemblySecurityException
                (''Register labels with dots: '' @ join '' '' with_dot))
         else
           (let duplicates = get_duplicates names
            in if length duplicates > 0
               then Inl (AssemblySecurityException
                      (''Register labels are not unique: '' @ join '' '' duplicates))
               else Inr ()))"

text \<open>An example: register 1 carries the label \<open>a.b\<close>, register 0 (\<open>me\<close>) the label \<open>0\<close>.\<close>

definition dotted_heap :: heap where
  "dotted_heap =
     \<lparr>cells = (\<lambda>r. \<lparr>label = (if r = 1 then ''a.b'' else str_nat r),
                      assembly_type = None, location = - 1\<rparr>),
      fresh = 2\<rparr>"

definition dotted_example :: assembly_function where
  "dotted_example =
     \<lparr>assembly_function.function_name = ''f'',
      instructions = [Instruction MoveInstruction (Some 1) (Some (Constant 0 Uint)) None],
      runtime_type_check_instructions = [], me_register = 0, argument_registers = [],
      return_register = 1, is_constructor = False, is_private = False,
      is_private_for = None\<rparr>"

section \<open>Constructor check (\<open>AssemblyFunction.check_constructor\<close>)\<close>

text \<open>
  \<open>i.target_object_id == self_register\<close>: neither class defines \<open>__eq__\<close>, so the
  comparison is object identity.
\<close>

definition same_object :: "val option \<Rightarrow> nat option \<Rightarrow> bool" where
  "same_object v r =
     (case v of
        None \<Rightarrow> r = None
      | Some (Register a) \<Rightarrow> r = Some a
      | Some x \<Rightarrow> False)"

text \<open>
  \<open>i.field.field.field_name\<close> of a \<open>STORE\<close>: only a linked \<open>FieldReference\<close> has it.
\<close>

definition stored_field_name :: "instruction \<Rightarrow> error + string" where
  "stored_field_name i =
     (case value_2 i of
        Some (FieldReference (AssemblyField cn fn) t) \<Rightarrow> Inr fn
      | _ \<Rightarrow> Inl AttributeError)"

fun written_fields_loop ::
  "nat option \<Rightarrow> instruction list \<Rightarrow> string set \<Rightarrow> error + string set" where
  "written_fields_loop self_register [] written_fields = Inr written_fields"
| "written_fields_loop self_register (i # rest) written_fields =
     (if is_store i \<and> same_object (value_1 i) self_register
      then sum_bind (stored_field_name i) (\<lambda>n.
             written_fields_loop self_register rest (insert n written_fields))
      else written_fields_loop self_register rest written_fields)"

fun check_fields_written ::
  "assembly_class \<Rightarrow> assembly_function \<Rightarrow> string list \<Rightarrow> string set \<Rightarrow> error + unit" where
  "check_fields_written c f [] written_fields = Inr ()"
| "check_fields_written c f (n # rest) written_fields =
     (if n \<notin> written_fields
      then Inl (AssemblySecurityException
             (''Field '' @ [CHR 0x27] @ n @ [CHR 0x27] @ '' not initialized in constructor ''
                @ [CHR 0x27] @ assembly_function.function_name f @ [CHR 0x27] @ '' of class ''
                @ [CHR 0x27] @ qualified_name c @ [CHR 0x27]))
      else check_fields_written c f rest written_fields)"

text \<open>The class \<open>c\<close> is the function's \<open>assembly_class\<close>.\<close>

definition check_all_fields_initialized_for ::
  "assembly_class \<Rightarrow> assembly_function \<Rightarrow> nat option \<Rightarrow> instruction list \<Rightarrow> error + unit" where
  "check_all_fields_initialized_for c f self_register instrs =
     sum_bind (written_fields_loop self_register instrs {}) (\<lambda>written_fields.
       check_fields_written c f (map field_name (class_fields c)) written_fields)"

definition check_constructor :: "assembly_class \<Rightarrow> assembly_function \<Rightarrow> error + unit" where
  "check_constructor c f =
     (if list_ex is_new (drop 1 (instructions f))
      then Inl (AssemblySecurityException
             ''NEW instruction must be first instruction in instruction list'')
      else
        (case instructions f of
           [] \<Rightarrow> Inl IndexError
         | i0 # rest \<Rightarrow>
             if is_new i0
             then check_all_fields_initialized_for c f (register i0) (instructions f)
             else Inr ()))"

section \<open>The compiler (\<open>compiler/compiler.py\<close>, \<open>compiler/instruction_builder.py\<close>)\<close>

record instruction_builder =
  next_register_index :: nat
  builder_instructions :: "instruction list"
  builder_me_register :: nat

definition InstructionBuilder :: "heap \<Rightarrow> instruction_builder \<times> heap" where
  "InstructionBuilder h =
     (let (me, h1) = new_register h ''me''
      in (\<lparr>next_register_index = 0, builder_instructions = [], builder_me_register = me\<rparr>,
          set_type h1 me (Some Address)))"

definition append :: "instruction_builder \<Rightarrow> instruction \<Rightarrow> instruction_builder" where
  "append b i = b\<lparr>builder_instructions := builder_instructions b @ [i]\<rparr>"

definition next_register ::
  "heap \<Rightarrow> instruction_builder \<Rightarrow> string \<Rightarrow> nat \<times> heap \<times> instruction_builder" where
  "next_register h b prefix =
     (let b' = b\<lparr>next_register_index := next_register_index b + 1\<rparr>;
          (r, h') = new_register h (prefix @ ''#'' @ str_nat (next_register_index b'))
      in (r, h', b'))"

text \<open>\<open>Function\<close> of \<open>lang/function.py\<close>, its types already as assembly types.\<close>

record zapper_function =
  contract_type :: string
  zf_name :: string
  argument_types :: "(string \<times> assembly_type) list"
  return_type :: assembly_type
  zf_is_private :: bool
  zf_is_private_for :: "string option"
  zf_is_constructor :: bool

text \<open>
  What the body of a contract function returns to the compiler: nothing, an observer
  (with its value), one of the constant wrappers, a Python integer, or something else.
\<close>

datatype returned =
    ReturnsNone
  | ReturnsObserver val
  | ReturnsAddressConst int
  | ReturnsLongConst int
  | ReturnsInt int
  | ReturnsOther

definition is_uint_literal :: "int \<Rightarrow> bool" where
  "is_uint_literal x = (0 \<le> x \<and> x < 2 ^ 120)"

text \<open>\<open>ensure_expression_observer\<close>, returning the observer's value.\<close>

definition ensure_expression_observer :: "returned \<Rightarrow> error + val" where
  "ensure_expression_observer ret =
     (case ret of
        ReturnsObserver v \<Rightarrow> Inr v
      | ReturnsAddressConst n \<Rightarrow> Inr (Constant n Address)
      | ReturnsLongConst n \<Rightarrow> Inr (Constant n Long)
      | ReturnsInt n \<Rightarrow>
          if is_uint_literal n then Inr (Constant n Uint) else Inl (AssertionError [])
      | _ \<Rightarrow> Inl (AssertionError []))"

fun get_argument_observers :: "heap \<Rightarrow> (string \<times> assembly_type) list \<Rightarrow> nat list \<times> heap" where
  "get_argument_observers h [] = ([], h)"
| "get_argument_observers h ((name, t) # rest) =
     (let (r, h1) = new_register h name;
          h2 = set_type h1 r (Some t);
          (rs, h3) = get_argument_observers h2 rest
      in (r # rs, h3))"

text \<open>
  \<open>zapper_function_to_assembly_function\<close>. Running the contract's method against the
  observers is the parameter \<open>body\<close>: given the argument registers it may raise, or
  return a value and leave the register store and the builder in any state.
\<close>

definition zapper_function_to_assembly_function ::
  "(nat list \<Rightarrow> heap \<Rightarrow> instruction_builder \<Rightarrow> error + returned \<times> heap \<times> instruction_builder)
     \<Rightarrow> heap \<Rightarrow> zapper_function \<Rightarrow> error + assembly_function \<times> heap" where
  "zapper_function_to_assembly_function body h0 function =
     (let (builder, h1) = InstructionBuilder h0;
          (argument_observers, h2) = get_argument_observers h1 (argument_types function)
      in case argument_observers of
           [] \<Rightarrow> Inl IndexError
         | self # others \<Rightarrow>
             (let builder1 =
                    (if zf_is_constructor function
                     then append builder
                            (Instruction (NewInstruction (ClassName (contract_type function)))
                               (Some self)
                               (Some (ClassReference (ClassName (contract_type function))))
                               None)
                     else builder)
              in sum_bind (body argument_observers h2 builder1) (\<lambda>(ret, h3, builder2).
                   (let (return_register, h4) = new_register h3 ''return'';
                        h5 = set_type h4 return_register (Some (return_type function));
                        ret1 = (if ret = ReturnsNone
                                then (if zf_is_constructor function
                                      then ReturnsObserver (Register self)
                                      else ReturnsInt 0)
                                else ret)
                    in sum_bind (ensure_expression_observer ret1) (\<lambda>v.
                         (let builder3 =
                                append builder2
                                  (Instruction MoveInstruction (Some return_register) (Some v) None)
                          in Inr (\<lparr>assembly_function.function_name = zf_name function,
                                    instructions = builder_instructions builder3,
                                    runtime_type_check_instructions = [],
                                    me_register = builder_me_register builder3,
                                    argument_registers =
                                      (if zf_is_constructor function then others
                                       else argument_observers),
                                    return_register = return_register,
                                    is_constructor = zf_is_constructor function,
                                    is_private = zf_is_private function,
                                    is_private_for = zf_is_private_for function\<rparr>, h5)))))))"

text \<open>An example: a constructor whose body does nothing, for a class with the field \<open>owner\<close>.\<close>

definition example_zapper_function :: zapper_function where
  "example_zapper_function =
     \<lparr>contract_type = ''C'', zf_name = ''create'',
      argument_types = [(''self'', ClassType ''C'')], return_type = ClassType ''C'',
      zf_is_private = False, zf_is_private_for = None, zf_is_constructor = True\<rparr>"

definition empty_body ::
  "nat list \<Rightarrow> heap \<Rightarrow> instruction_builder \<Rightarrow> error + returned \<times> heap \<times> instruction_builder" where
  "empty_body args h b = Inr (ReturnsNone, h, b)"

definition example_class :: assembly_class where
  "example_class =
     \<lparr>qualified_name = ''C'', has_address = False,
      class_fields = [\<lparr>field_name = ''owner'', field_type = Address, field_location = Some 0\<rparr>],
      class_functions = [], class_id = None\<rparr>"

section \<open>Register allocation (\<open>compiler/register_allocation.py\<close>)\<close>

text \<open>
  The free pool is a Python set and \<open>set.pop()\<close> removes and returns an element that
  the language leaves unspecified. Which element that is, is the parameter \<open>pop\<close> of
  the model; a proper \<open>pop\<close> returns an element of the non-empty set it is given.
\<close>

record register_allocation =
  free_registers :: "int set"
  n_registers :: int

definition RegisterAllocation :: register_allocation where
  "RegisterAllocation = \<lparr>free_registers = {}, n_registers = 0\<rparr>"

definition proper_pop :: "(int set \<Rightarrow> int) \<Rightarrow> bool" where
  "proper_pop pop = (\<forall>s. finite s \<and> s \<noteq> {} \<longrightarrow> pop s \<in> s)"

definition next_free_register ::
  "(int set \<Rightarrow> int) \<Rightarrow> register_allocation \<Rightarrow> int \<times> register_allocation" where
  "next_free_register pop a =
     (if free_registers a \<noteq> {}
      then (let x = pop (free_registers a)
            in (x, a\<lparr>free_registers := free_registers a - {x}\<rparr>))
      else (n_registers a, a\<lparr>n_registers := n_registers a + 1\<rparr>))"

text \<open>
  \<open>last_used\<close> maps a register to the last instruction that mentions it. Instructions
  are objects compared with \<open>is\<close>; every instruction of the list is taken to be an
  object of its own, so an instruction is named by its position.
\<close>

fun last_used_loop :: "(nat \<times> instruction) list \<Rightarrow> (nat \<rightharpoonup> nat) \<Rightarrow> (nat \<rightharpoonup> nat)" where
  "last_used_loop [] last_used = last_used"
| "last_used_loop ((k, i) # rest) last_used =
     last_used_loop rest (fold (\<lambda>r m. m(r \<mapsto> k)) (get_registers i) last_used)"

text \<open>\<open>register.location = self._next_free_register()\<close>.\<close>

definition allocate ::
  "(int set \<Rightarrow> int) \<Rightarrow> nat \<Rightarrow> heap \<times> register_allocation \<Rightarrow> heap \<times> register_allocation" where
  "allocate pop r s =
     (let (x, a') = next_free_register pop (snd s) in (set_location (fst s) r x, a'))"

definition allocate_if_unset ::
  "(int set \<Rightarrow> int) \<Rightarrow> nat \<Rightarrow> heap \<times> register_allocation \<Rightarrow> heap \<times> register_allocation" where
  "allocate_if_unset pop r s =
     (if location (cells (fst s) r) = - 1 then allocate pop r s else s)"

definition release_if_last ::
  "(nat \<rightharpoonup> nat) \<Rightarrow> nat \<Rightarrow> nat \<Rightarrow> heap \<times> register_allocation \<Rightarrow> heap \<times> register_allocation" where
  "release_if_last last_used k r s =
     (if last_used r = Some k
      then (fst s, (snd s)\<lparr>free_registers :=
                             insert (location (cells (fst s) r)) (free_registers (snd s))\<rparr>)
      else s)"

text \<open>The body of the loop over the instructions: both inner loops.\<close>

definition allocate_instruction ::
  "(int set \<Rightarrow> int) \<Rightarrow> (nat \<rightharpoonup> nat) \<Rightarrow> nat \<times> instruction
     \<Rightarrow> heap \<times> register_allocation \<Rightarrow> heap \<times> register_allocation" where
  "allocate_instruction pop last_used ki s =
     fold (release_if_last last_used (fst ki)) (get_registers (snd ki))
       (fold (allocate_if_unset pop) (get_registers (snd ki)) s)"

definition run ::
  "(int set \<Rightarrow> int) \<Rightarrow> heap \<Rightarrow> assembly_function \<Rightarrow> heap \<times> register_allocation" where
  "run pop h function =
     (let all_instructions = enumerate 0 (get_all_instructions function);
          last_used = last_used_loop all_instructions Map.empty;
          s1 = allocate pop (me_register function) (h, RegisterAllocation);
          s2 = fold (allocate pop) (argument_registers function) s1
      in fold (allocate_instruction pop last_used) all_instructions s2)"

text \<open>\<open>register_allocation(function)\<close>: the register store after the run.\<close>

definition register_allocation_of :: "(int set \<Rightarrow> int) \<Rightarrow> heap \<Rightarrow> assembly_function \<Rightarrow> heap" where
  "register_allocation_of pop h function = fst (run pop h function)"

text \<open>
  The state of a run just before the instruction at position \<open>n\<close> is processed (a run
  cut after \<open>n\<close> instructions), to state what holds during a run.
\<close>

definition run_upto ::
  "(int set \<Rightarrow> int) \<Rightarrow> heap \<Rightarrow> assembly_function \<Rightarrow> nat \<Rightarrow> heap \<times> register_allocation" where
  "run_upto pop h function n =
     (let all_instructions = enumerate 0 (get_all_instructions function);
          last_used = last_used_loop all_instructions Map.empty;
          s1 = allocate pop (me_register function) (h, RegisterAllocation);
          s2 = fold (allocate pop) (argument_registers function) s1
      in fold (allocate_instruction pop last_used) (take n all_instructions) s2)"

text \<open>Registers for examples: register \<open>r\<close> is labelled \<open>r\<close> in decimal, untyped, no slot.\<close>

definition blank_heap :: "nat \<Rightarrow> heap" where
  "blank_heap n =
     \<lparr>cells = (\<lambda>r. \<lparr>label = str_nat r, assembly_type = None, location = - 1\<rparr>), fresh = n\<rparr>"

definition example_function_of :: "instruction list \<Rightarrow> nat list \<Rightarrow> nat \<Rightarrow> assembly_function" where
  "example_function_of instrs args ret =
     \<lparr>assembly_function.function_name = ''f'', instructions = instrs,
      runtime_type_check_instructions = [], me_register = 0, argument_registers = args,
      return_register = ret, is_constructor = False, is_private = False,
      is_private_for = None\<rparr>"

definition pool_example :: assembly_function where
  "pool_example =
     example_function_of
       [Instruction NowInstruction (Some 1) None None,
        Instruction NowInstruction (Some 2) None None,
        Instruction NowInstruction (Some 3) None None,
        Instruction (BinaryOperationInstruction PLUS) (Some 4) (Some (Register 2)) (Some (Register 3)),
        Instruction MoveInstruction (Some 5) (Some (Register 4)) None]
       [] 5"


section \<open>Assembly storage and inlining (\<open>assembly/assembly_storage.py\<close>)\<close>

text \<open>
  \<open>assembly_classes\<close> is a dictionary keyed by qualified name, kept in insertion order.
  \<open>classes_to_check\<close> holds the very class objects that \<open>assembly_classes\<close> holds
  (\<open>add_class\<close> puts a class into both), so it is kept as the list of their names.
\<close>

record storage =
  assembly_classes :: "assembly_class list"
  classes_to_check :: "string list"
  class_to_id :: "(string \<times> int) list"
  next_class_id :: int

definition AssemblyStorage :: storage where
  "AssemblyStorage =
     \<lparr>assembly_classes = [], classes_to_check = [], class_to_id = [], next_class_id = 0\<rparr>"

text \<open>\<open>d[k] = v\<close> on a dictionary kept as a list of entries in insertion order.\<close>

definition dict_set :: "('k \<times> 'v) list \<Rightarrow> 'k \<Rightarrow> 'v \<Rightarrow> ('k \<times> 'v) list" where
  "dict_set d k v =
     (if k \<in> set (map fst d) then map (\<lambda>kv. if fst kv = k then (k, v) else kv) d
      else d @ [(k, v)])"

definition get_class :: "storage \<Rightarrow> string \<Rightarrow> assembly_class option" where
  "get_class st n = find (\<lambda>c. qualified_name c = n) (assembly_classes st)"

definition get_function :: "assembly_class \<Rightarrow> string \<Rightarrow> assembly_function option" where
  "get_function c n = find (\<lambda>f. assembly_function.function_name f = n) (class_functions c)"

definition get_field :: "assembly_class \<Rightarrow> string \<Rightarrow> assembly_field option" where
  "get_field c n = find (\<lambda>f. field_name f = n) (class_fields c)"

definition add_class :: "storage \<Rightarrow> assembly_class \<Rightarrow> error + storage" where
  "add_class st c =
     (if qualified_name c \<in> set (map qualified_name (assembly_classes st))
      then Inl (AssemblySecurityException
             (''Tried adding class '' @ qualified_name c @ '' twice''))
      else
        (case get_field c ''owner'' of
           None \<Rightarrow> Inl (AssemblySecurityException
                      (''Class '' @ qualified_name c @ '' does not define an '' @ [CHR 0x22]
                         @ ''owner'' @ [CHR 0x22] @ '' field''))
         | Some owner \<Rightarrow>
             if \<not> is_address (Some (field_type owner))
             then Inl (AssemblySecurityException
                    (''Field '' @ [CHR 0x22] @ ''owner'' @ [CHR 0x22] @ '' of class '' @ qualified_name c
                       @ '' does not have address type''))
             else if \<not> field_location owner = Some 0
             then Inl (AssemblySecurityException
                    (''Field '' @ [CHR 0x22] @ ''owner'' @ [CHR 0x22] @ '' of class '' @ qualified_name c
                       @ '' is not at location 0''))
             else
               Inr (st\<lparr>assembly_classes :=
                          assembly_classes st @ [c\<lparr>class_id := Some (next_class_id st)\<rparr>],
                        classes_to_check := classes_to_check st @ [qualified_name c],
                        class_to_id := dict_set (class_to_id st) (qualified_name c) (next_class_id st),
                        next_class_id := next_class_id st + 1\<rparr>)))"

definition reset_new_classes :: "storage \<Rightarrow> storage" where
  "reset_new_classes st = st\<lparr>classes_to_check := []\<rparr>"

subsection \<open>Cloning a function for inlining (\<open>assembly/functions.py\<close>, \<open>instruction.py\<close>)\<close>

text \<open>
  One attribute of an instruction in \<open>get_inlined_equivalent\<close>: a register is replaced
  by its image under \<open>mapping\<close>, or by a fresh clone that is then entered into \<open>mapping\<close>.
\<close>

definition inlined_register ::
  "heap \<Rightarrow> (nat \<rightharpoonup> nat) \<Rightarrow> string \<Rightarrow> nat \<Rightarrow> nat \<times> (nat \<rightharpoonup> nat) \<times> heap" where
  "inlined_register h mapping postfix r =
     (case mapping r of
        Some new_value \<Rightarrow> (new_value, mapping, h)
      | None \<Rightarrow> (let (new_value, h') = clone h r postfix
                 in (new_value, mapping(r \<mapsto> new_value), h')))"

definition inlined_value ::
  "heap \<Rightarrow> (nat \<rightharpoonup> nat) \<Rightarrow> string \<Rightarrow> val option \<Rightarrow> val option \<times> (nat \<rightharpoonup> nat) \<times> heap" where
  "inlined_value h mapping postfix v =
     (case v of
        Some (Register r) \<Rightarrow>
          (let (r', mapping', h') = inlined_register h mapping postfix r
           in (Some (Register r'), mapping', h'))
      | _ \<Rightarrow> (v, mapping, h))"

text \<open>
  \<open>get_inlined_equivalent\<close> walks the attributes in the order \<open>register\<close>, \<open>value_1\<close>,
  \<open>value_2\<close>; every other attribute (the class, and for a \<open>CALL\<close> its function,
  argument list and flag) is copied as it is.
\<close>

definition get_inlined_equivalent ::
  "heap \<Rightarrow> (nat \<rightharpoonup> nat) \<Rightarrow> string \<Rightarrow> instruction \<Rightarrow> instruction \<times> (nat \<rightharpoonup> nat) \<times> heap" where
  "get_inlined_equivalent h mapping postfix i =
     (let (r', m1, h1) =
            (case register i of
               None \<Rightarrow> (None, mapping, h)
             | Some r \<Rightarrow> (let (x, m', h') = inlined_register h mapping postfix r
                         in (Some x, m', h')));
          (v1', m2, h2) = inlined_value h1 m1 postfix (value_1 i);
          (v2', m3, h3) = inlined_value h2 m2 postfix (value_2 i)
      in (Instruction (iclass i) r' v1' v2', m3, h3))"

fun inlined_instructions ::
  "heap \<Rightarrow> (nat \<rightharpoonup> nat) \<Rightarrow> string \<Rightarrow> instruction list \<Rightarrow> instruction list \<times> (nat \<rightharpoonup> nat) \<times> heap" where
  "inlined_instructions h mapping postfix [] = ([], mapping, h)"
| "inlined_instructions h mapping postfix (i # rest) =
     (let (i', m1, h1) = get_inlined_equivalent h mapping postfix i;
          (rest', m2, h2) = inlined_instructions h1 m1 postfix rest
      in (i' # rest', m2, h2))"

fun clone_all :: "heap \<Rightarrow> nat list \<Rightarrow> string \<Rightarrow> nat list \<times> heap" where
  "clone_all h [] postfix = ([], h)"
| "clone_all h (r # rs) postfix =
     (let (r', h1) = clone h r postfix;
          (rs', h2) = clone_all h1 rs postfix
      in (r' # rs', h2))"

text \<open>\<open>clone_for_inlining\<close> with the default (empty) \<open>register_mapping\<close>.\<close>

definition clone_for_inlining :: "heap \<Rightarrow> assembly_function \<Rightarrow> string \<Rightarrow> assembly_function \<times> heap" where
  "clone_for_inlining h f register_postfix =
     (let (new_me, h1) = clone h (me_register f) register_postfix;
          (new_argument_registers, h2) = clone_all h1 (argument_registers f) register_postfix;
          (new_return_register, h3) = clone h2 (return_register f) register_postfix;
          mapping0 = fold (\<lambda>(k, v) m. m(k \<mapsto> v))
                       (zip (argument_registers f) new_argument_registers) Map.empty;
          mapping1 = mapping0(me_register f \<mapsto> new_me);
          mapping2 = mapping1(return_register f \<mapsto> new_return_register);
          (new_instructions, mapping3, h4) =
             inlined_instructions h3 mapping2 register_postfix (instructions f)
      in (\<lparr>assembly_function.function_name = assembly_function.function_name f,
           instructions = new_instructions,
           runtime_type_check_instructions = [],
           me_register = new_me,
           argument_registers = new_argument_registers,
           return_register = new_return_register,
           is_constructor = is_constructor f,
           is_private = is_private f,
           is_private_for = is_private_for f\<rparr>, h4))"

subsection \<open>Inlining the calls of one function (\<open>AssemblyFunction.inline\<close>)\<close>

text \<open>
  The instructions that replace the \<open>CALL\<close> at position \<open>k\<close> of the function \<open>self\<close>:
  the callee is looked up in the storage again (its calls may have been inlined by
  now) and cloned under the postfix \<open>inlined#k\<close>.
\<close>

definition inline_call ::
  "heap \<Rightarrow> storage \<Rightarrow> assembly_function \<Rightarrow> nat \<Rightarrow> instruction \<Rightarrow> function_target
     \<Rightarrow> val list \<Rightarrow> bool \<Rightarrow> error + instruction list \<times> heap" where
  "inline_call h st self k instr target call_arguments sender_is_self =
     (case target of
        FunctionReference cn fn t \<Rightarrow> Inl (AssertionError [])
      | AssemblyFunction cn fn ar rr \<Rightarrow>
          (case get_class st cn of
             None \<Rightarrow> Inl KeyError
           | Some c \<Rightarrow>
               (case get_function c fn of
                  None \<Rightarrow> Inl KeyError
                | Some called_function_inlined \<Rightarrow>
                    (let (called_function, h1) =
                           clone_for_inlining h called_function_inlined
                             (''inlined#'' @ str_nat k)
                     in sum_bind
                          (if sender_is_self
                           then (case argument_registers self of
                                   [] \<Rightarrow> Inl IndexError
                                 | a0 # as \<Rightarrow>
                                     Inr (Instruction PublicKeyInstruction
                                            (Some (me_register called_function))
                                            (Some (Register a0)) None))
                           else Inr (Instruction MoveInstruction
                                       (Some (me_register called_function))
                                       (Some (Register (me_register self))) None))
                          (\<lambda>bind_me.
                             Inr ([bind_me]
                                  @ map (\<lambda>(parameter, argument).
                                           Instruction MoveInstruction (Some parameter)
                                             (Some argument) None)
                                      (zip (argument_registers called_function) call_arguments)
                                  @ instructions called_function
                                  @ [Instruction MoveInstruction (register instr)
                                       (Some (Register (return_register called_function))) None],
                                  h1))))))"

fun inline_loop ::
  "heap \<Rightarrow> storage \<Rightarrow> assembly_function \<Rightarrow> (nat \<times> instruction) list \<Rightarrow> instruction list
     \<Rightarrow> error + instruction list \<times> heap" where
  "inline_loop h st self [] all_inlined = Inr (all_inlined, h)"
| "inline_loop h st self ((k, instr) # rest) all_inlined =
     (case iclass instr of
        CallInstruction target call_arguments sender_is_self \<Rightarrow>
          sum_bind (inline_call h st self k instr target call_arguments sender_is_self)
            (\<lambda>(block, h1). inline_loop h1 st self rest (all_inlined @ block))
      | _ \<Rightarrow> inline_loop h st self rest (all_inlined @ [instr]))"

definition inline :: "heap \<Rightarrow> storage \<Rightarrow> assembly_function \<Rightarrow> error + assembly_function \<times> heap" where
  "inline h st self =
     sum_bind (inline_loop h st self (enumerate 0 (instructions self)) []) (\<lambda>(all_inlined, h1).
       Inr (\<lparr>assembly_function.function_name = assembly_function.function_name self,
             instructions = all_inlined,
             runtime_type_check_instructions = [],
             me_register = me_register self,
             argument_registers = argument_registers self,
             return_register = return_register self,
             is_constructor = is_constructor self,
             is_private = is_private self,
             is_private_for = is_private_for self\<rparr>, h1))"

text \<open>
  \<open>AssemblyClass.inline_function\<close>, reached through \<open>self.assembly_classes[class_name]\<close>:
  the entry of the function in the class's dictionary is replaced.
\<close>

definition replace_function :: "storage \<Rightarrow> string \<Rightarrow> string \<Rightarrow> assembly_function \<Rightarrow> storage" where
  "replace_function st cn fn f' =
     st\<lparr>assembly_classes :=
          map (\<lambda>c. if qualified_name c = cn
                    then c\<lparr>class_functions :=
                             map (\<lambda>f. if assembly_function.function_name f = fn then f' else f)
                               (class_functions c)\<rparr>
                    else c)
            (assembly_classes st)\<rparr>"

definition inline_function :: "heap \<Rightarrow> storage \<Rightarrow> string \<Rightarrow> string \<Rightarrow> error + heap \<times> storage" where
  "inline_function h st cn fn =
     (case get_class st cn of
        None \<Rightarrow> Inl KeyError
      | Some c \<Rightarrow>
          (case get_function c fn of
             None \<Rightarrow> Inl KeyError
           | Some prev_function \<Rightarrow>
               sum_bind (inline h st prev_function) (\<lambda>(f', h1).
                 Inr (h1, replace_function st cn fn f'))))"

subsection \<open>The call graph and the inlining order (\<open>inline_new_classes\<close>)\<close>

text \<open>
  \<open>get_called_function_names\<close> returns a Python set of pairs; it is kept as the
  duplicate-free list of its elements in the order of their first insertion.
\<close>

fun get_called_function_names_loop ::
  "instruction list \<Rightarrow> (string \<times> string) list \<Rightarrow> error + (string \<times> string) list" where
  "get_called_function_names_loop [] called = Inr called"
| "get_called_function_names_loop (i # rest) called =
     (case iclass i of
        CallInstruction target call_arguments sender_is_self \<Rightarrow>
          (case target of
             FunctionReference cn fn t \<Rightarrow> Inl (AssertionError [])
           | AssemblyFunction cn fn ar rr \<Rightarrow>
               get_called_function_names_loop rest
                 (if (cn, fn) \<in> set called then called else called @ [(cn, fn)]))
      | _ \<Rightarrow> get_called_function_names_loop rest called)"

definition get_called_function_names :: "assembly_function \<Rightarrow> error + (string \<times> string) list" where
  "get_called_function_names f = get_called_function_names_loop (instructions f) []"

type_synonym callgraph = "((string \<times> string) \<times> (string \<times> string) list) list"

fun callgraph_of_functions ::
  "string list \<Rightarrow> string \<Rightarrow> assembly_function list \<Rightarrow> callgraph \<Rightarrow> error + callgraph" where
  "callgraph_of_functions classes_to_check_names cn [] remaining_callgraph = Inr remaining_callgraph"
| "callgraph_of_functions classes_to_check_names cn (f # fs) remaining_callgraph =
     sum_bind (get_called_function_names f) (\<lambda>called.
       callgraph_of_functions classes_to_check_names cn fs
         (dict_set remaining_callgraph (cn, assembly_function.function_name f)
            (filter (\<lambda>(c, g). c \<in> set classes_to_check_names) called)))"

text \<open>
  The outer loop over \<open>classes_to_check\<close>. A name in that list always is the key of a
  class of the storage; the model raises \<open>KeyError\<close> where it is not.
\<close>

fun callgraph_of_classes ::
  "storage \<Rightarrow> string list \<Rightarrow> string list \<Rightarrow> callgraph \<Rightarrow> error + callgraph" where
  "callgraph_of_classes st classes_to_check_names [] remaining_callgraph = Inr remaining_callgraph"
| "callgraph_of_classes st classes_to_check_names (n # ns) remaining_callgraph =
     (case get_class st n of
        None \<Rightarrow> Inl KeyError
      | Some c \<Rightarrow>
          sum_bind (callgraph_of_functions classes_to_check_names (qualified_name c)
                      (class_functions c) remaining_callgraph)
            (callgraph_of_classes st classes_to_check_names ns))"

definition build_callgraph :: "storage \<Rightarrow> error + callgraph" where
  "build_callgraph st =
     callgraph_of_classes st (classes_to_check st) (classes_to_check st) []"

text \<open>
  The \<open>while\<close> loop: the first node without remaining callees is inlined, removed from
  the lists of the others and deleted; if there is none, the loop raises.
\<close>

definition remove_node :: "callgraph \<Rightarrow> string \<times> string \<Rightarrow> callgraph" where
  "remove_node g n = filter (\<lambda>kv. fst kv \<noteq> n) (map (\<lambda>kv. (fst kv, remove1 n (snd kv))) g)"

function inline_remaining :: "heap \<Rightarrow> storage \<Rightarrow> callgraph \<Rightarrow> error + heap \<times> storage" where
  "inline_remaining h st remaining_callgraph =
     (if remaining_callgraph = [] then Inr (h, st)
      else
        (case find (\<lambda>kv. snd kv = []) remaining_callgraph of
           None \<Rightarrow> Inl (AssertionError ''detected cycle in call graph, cannot inline'')
         | Some kv \<Rightarrow>
             (case inline_function h st (fst (fst kv)) (snd (fst kv)) of
                Inl e \<Rightarrow> Inl e
              | Inr hs \<Rightarrow>
                  inline_remaining (fst hs) (snd hs) (remove_node remaining_callgraph (fst kv)))))"
  by pat_completeness auto
termination
proof (relation "measure (\<lambda>(h, st, g). length g)")
  show "wf (measure (\<lambda>(h, st, g). length g))" by simp
next
  fix h :: heap and st :: storage and remaining_callgraph :: callgraph and kv and hs :: "heap \<times> storage"
  assume "find (\<lambda>kv. snd kv = []) remaining_callgraph = Some kv"
  then have "kv \<in> set remaining_callgraph"
    by (auto simp: find_Some_iff)
  then have "(fst kv, remove1 (fst kv) (snd kv))
               \<in> set (map (\<lambda>kv'. (fst kv', remove1 (fst kv) (snd kv'))) remaining_callgraph)"
    by force
  then have "length (remove_node remaining_callgraph (fst kv))
               < length (map (\<lambda>kv'. (fst kv', remove1 (fst kv) (snd kv'))) remaining_callgraph)"
    unfolding remove_node_def by (intro length_filter_less [where x = "(fst kv, remove1 (fst kv) (snd kv))"]) simp_all
  then show "((fst hs, snd hs, remove_node remaining_callgraph (fst kv)), h, st, remaining_callgraph)
               \<in> measure (\<lambda>(h, st, g). length g)"
    by simp
qed

declare inline_remaining.simps [simp del]

definition inline_new_classes :: "heap \<Rightarrow> storage \<Rightarrow> error + heap \<times> storage" where
  "inline_new_classes h st =
     sum_bind (build_callgraph st) (inline_remaining h st)"

subsection \<open>Notions to state properties of inlining\<close>






text \<open>An edge of a call graph, and a cycle: a closed walk along edges.\<close>

definition edge :: "callgraph \<Rightarrow> string \<times> string \<Rightarrow> string \<times> string \<Rightarrow> bool" where
  "edge g a b = list_ex (\<lambda>kv. fst kv = a \<and> b \<in> set (snd kv)) g"

fun walk :: "callgraph \<Rightarrow> string \<times> string \<Rightarrow> (string \<times> string) list \<Rightarrow> bool" where
  "walk g a [] = True"
| "walk g a (b # rest) = (edge g a b \<and> walk g b rest)"

fun cycle :: "callgraph \<Rightarrow> (string \<times> string) list \<Rightarrow> bool" where
  "cycle g [] = False"
| "cycle g (n # ns) = walk g n (ns @ [n])"

text \<open>
  Every call of the classes to check is linked, names a function that the storage
  holds, and, where \<open>sender_is_self\<close> is set, stands in a function with an argument.
\<close>

definition call_resolves :: "storage \<Rightarrow> assembly_function \<Rightarrow> instruction \<Rightarrow> bool" where
  "call_resolves st self i =
     (case iclass i of
        CallInstruction target call_arguments sender_is_self \<Rightarrow>
          (case target of
             FunctionReference cn fn t \<Rightarrow> False
           | AssemblyFunction cn fn ar rr \<Rightarrow>
               (case get_class st cn of
                  None \<Rightarrow> False
                | Some c \<Rightarrow> get_function c fn \<noteq> None)
               \<and> (if sender_is_self then argument_registers self \<noteq> [] else True))
      | _ \<Rightarrow> True)"

definition calls_resolve :: "storage \<Rightarrow> bool" where
  "calls_resolve st =
     list_all (\<lambda>n. case get_class st n of
                     None \<Rightarrow> False
                   | Some c \<Rightarrow> list_all (\<lambda>f. list_all (call_resolves st f) (instructions f))
                                (class_functions c))
       (classes_to_check st)"

text \<open>
  Examples: class \<open>A\<close> with \<open>f\<close>, which calls \<open>B.g\<close>; class \<open>B\<close> with \<open>g\<close>, which in one
  storage only moves its argument and in the other calls \<open>A.f\<close>.
\<close>

definition example_f :: assembly_function where
  "example_f =
     \<lparr>assembly_function.function_name = ''f'',
      instructions =
        [Instruction (CallInstruction (AssemblyFunction ''B'' ''g'' [11] 12) [Register 1] False)
           (Some 2) None None,
         Instruction MoveInstruction (Some 3) (Some (Register 2)) None],
      runtime_type_check_instructions = [], me_register = 0, argument_registers = [1],
      return_register = 3, is_constructor = False, is_private = False, is_private_for = None\<rparr>"


definition example_g_calling_f :: assembly_function where
  "example_g_calling_f =
     \<lparr>assembly_function.function_name = ''g'',
      instructions =
        [Instruction (CallInstruction (AssemblyFunction ''A'' ''f'' [1] 3) [Register 11] False)
           (Some 12) None None],
      runtime_type_check_instructions = [], me_register = 10, argument_registers = [11],
      return_register = 12, is_constructor = False, is_private = False, is_private_for = None\<rparr>"

definition example_storage :: "assembly_function \<Rightarrow> storage" where
  "example_storage g =
     \<lparr>assembly_classes =
        [\<lparr>qualified_name = ''A'', has_address = False, class_fields = [],
          class_functions = [example_f], class_id = Some 0\<rparr>,
         \<lparr>qualified_name = ''B'', has_address = False, class_fields = [],
          class_functions = [g], class_id = Some 1\<rparr>],
      classes_to_check = [''A'', ''B''],
      class_to_id = [(''A'', 0), (''B'', 1)],
      next_class_id = 2\<rparr>"

subsection \<open>Invariants of the inlining loop\<close>





text \<open>
  A set of nodes that the loop can never leave behind: it is not empty, and every
  node of the set still has a callee in the set.
\<close>

definition trapped :: "callgraph \<Rightarrow> (string \<times> string) set \<Rightarrow> bool" where
  "trapped g S =
     (S \<noteq> {} \<and> S \<subseteq> fst ` set g \<and>
      (\<forall>kv \<in> set g. fst kv \<in> S \<longrightarrow> (\<exists>b \<in> S. b \<in> set (snd kv))))"

text \<open>Every node of the remaining graph names a function of the storage whose calls resolve.\<close>

definition nodes_resolve :: "storage \<Rightarrow> callgraph \<Rightarrow> bool" where
  "nodes_resolve st g =
     (\<forall>k \<in> fst ` set g. \<exists>c f. get_class st (fst k) = Some c \<and> get_function c (snd k) = Some f \<and>
        list_all (call_resolves st f) (instructions f))"

section \<open>Ledger (\<open>ledger/ledger.py\<close>, \<open>ledger/transaction.py\<close>)\<close>

record "transaction" =
  class_name :: string
  function_name :: string
  merkle_tree_root :: string
  consumed_serials :: "string list"
  new_records :: "string list"
  proof_hex :: "string option"
  unique_seed :: string
  current_time :: int

record serialized_instruction =
  opcode :: int
  dst :: int
  src_1 :: string
  src_1_is_const :: bool
  src_2 :: string
  src_2_is_const :: bool

record serialized_function =
  sf_class_id :: int
  sf_function_id :: int
  sf_return_register :: int
  sf_instructions :: "serialized_instruction list"

text \<open>
  The back-end verifier is an external collaborator: a call either returns a truth value
  or raises an exception, whose \<open>str(e)\<close> is kept.
\<close>

datatype verify_outcome = Returns bool | Raises string

type_synonym verifier =
  "string \<Rightarrow> string \<Rightarrow> string list \<Rightarrow> string list \<Rightarrow> string \<Rightarrow> string
     \<Rightarrow> serialized_instruction list \<Rightarrow> string \<Rightarrow> string option \<Rightarrow> verify_outcome"

text \<open>
  The Merkle tree is the back-end's as well: its state is a type parameter \<open>'mt\<close>, and
  \<open>insert(i, record)\<close> and \<open>get_root()\<close> are the two operations of the record below.
\<close>

record 'mt merkle_ops =
  mt_insert :: "'mt \<Rightarrow> int \<Rightarrow> string \<Rightarrow> 'mt"
  mt_get_root :: "'mt \<Rightarrow> string"

record ('mt, 'st) ledger =
  assembly_storage :: 'st
  serialized_functions :: "(string \<times> string) \<rightharpoonup> serialized_function"
  published_serial_numbers :: "string set"
  published_unique_seeds :: "string set"
  merkle_tree :: 'mt
  next_record_idx :: int
  accepted_transactions :: "(string list \<times> string list) list"
  current_time :: int
  verifier :: "verifier option"

text \<open>
  The ledger owns an \<open>AssemblyStorage\<close>; \<open>register_classes\<close> drives it through its
  phases and then serializes the public functions. For the ledger the storage is a
  state \<open>'st\<close> and its methods are the operations below: each returns the storage as
  the call leaves it and the exception it raised, if any. \<open>op_serialize_class\<close> is the
  body of the serialization loop for one class: the entries it stores before it
  returns or raises.
\<close>

record ('st, 'c) storage_ops =
  op_add_class :: "'st \<Rightarrow> 'c \<Rightarrow> error option \<times> 'st"
  op_link_new_classes :: "'st \<Rightarrow> error option \<times> 'st"
  op_check_new_classes :: "'st \<Rightarrow> error option \<times> 'st"
  op_inline_new_classes :: "'st \<Rightarrow> error option \<times> 'st"
  op_insert_runtime_checks_for_new_classes :: "'st \<Rightarrow> error option \<times> 'st"
  op_allocation_for_new_classes :: "'st \<Rightarrow> error option \<times> 'st"
  op_reset_new_classes :: "'st \<Rightarrow> 'st"
  op_serialize_class ::
    "'st \<Rightarrow> 'c \<Rightarrow> ((string \<times> string) \<times> serialized_function) list \<times> error option"

text \<open>
  \<open>add_to_set_check_unique\<close> mutates the set it is given; the model returns the flag and
  the set after the call. The local set \<open>transaction_serials\<close> is kept as the list of its
  elements in insertion order (Python does not fix the order in which \<open>list(s)\<close>
  enumerates a set; nothing below depends on it).
\<close>

definition add_to_set_check_unique :: "'a list \<Rightarrow> 'a \<Rightarrow> bool \<times> 'a list" where
  "add_to_set_check_unique s elem =
     (if elem \<in> set s then (False, s) else (True, s @ [elem]))"

text \<open>The first loop of \<open>verify_and_execute_transaction\<close>; \<open>None\<close> is the raise.\<close>

fun collect_serials :: "string list \<Rightarrow> string list \<Rightarrow> string list option" where
  "collect_serials transaction_serials [] = Some transaction_serials"
| "collect_serials transaction_serials (serial # rest) =
     (case add_to_set_check_unique transaction_serials serial of
        (False, _) \<Rightarrow> None
      | (True, s') \<Rightarrow> collect_serials s' rest)"

definition get_serialized_function ::
  "('mt, 'st) ledger \<Rightarrow> string \<Rightarrow> string \<Rightarrow> error + serialized_function" where
  "get_serialized_function l cn fn =
     (case serialized_functions l (cn, fn) of
        None \<Rightarrow> Inl (ValueError (''unknown function '' @ cn @ ''.'' @ fn @ '' or function not public''))
      | Some f \<Rightarrow> Inr f)"

definition get_current_root :: "'mt merkle_ops \<Rightarrow> ('mt, 'st) ledger \<Rightarrow> string" where
  "get_current_root ops l = mt_get_root ops (merkle_tree l)"

definition test_increase_current_time_by :: "('mt, 'st) ledger \<Rightarrow> int \<Rightarrow> ('mt, 'st) ledger" where
  "test_increase_current_time_by l amount = l\<lparr>current_time := current_time l + amount\<rparr>"

text \<open>\<open>register_classes\<close>: the first loop, the phases in order, the serialization loop.\<close>

fun add_classes :: "('st, 'c) storage_ops \<Rightarrow> 'st \<Rightarrow> 'c list \<Rightarrow> error option \<times> 'st" where
  "add_classes sops st [] = (None, st)"
| "add_classes sops st (c # cs) =
     (case op_add_class sops st c of
        (Some e, st') \<Rightarrow> (Some e, st')
      | (None, st') \<Rightarrow> add_classes sops st' cs)"

definition then_phase ::
  "error option \<times> 'st \<Rightarrow> ('st \<Rightarrow> error option \<times> 'st) \<Rightarrow> error option \<times> 'st" where
  "then_phase r phase = (case r of (Some e, st) \<Rightarrow> (Some e, st) | (None, st) \<Rightarrow> phase st)"

fun serialize_classes ::
  "('st, 'c) storage_ops \<Rightarrow> 'st \<Rightarrow> 'c list \<Rightarrow> ((string \<times> string) \<rightharpoonup> serialized_function)
     \<Rightarrow> error option \<times> ((string \<times> string) \<rightharpoonup> serialized_function)" where
  "serialize_classes sops st [] m = (None, m)"
| "serialize_classes sops st (c # cs) m =
     (case op_serialize_class sops st c of
        (entries, Some e) \<Rightarrow> (Some e, fold (\<lambda>(k, v) m. m(k \<mapsto> v)) entries m)
      | (entries, None) \<Rightarrow> serialize_classes sops st cs (fold (\<lambda>(k, v) m. m(k \<mapsto> v)) entries m))"

definition register_classes ::
  "('st, 'c) storage_ops \<Rightarrow> ('mt, 'st) ledger \<Rightarrow> 'c list \<Rightarrow> error option \<times> ('mt, 'st) ledger" where
  "register_classes sops l classes =
     (case then_phase (then_phase (then_phase (then_phase (then_phase
             (add_classes sops (assembly_storage l) classes)
             (op_link_new_classes sops))
             (op_check_new_classes sops))
             (op_inline_new_classes sops))
             (op_insert_runtime_checks_for_new_classes sops))
             (op_allocation_for_new_classes sops) of
        (Some e, st) \<Rightarrow> (Some e, l\<lparr>assembly_storage := st\<rparr>)
      | (None, st) \<Rightarrow>
          (let st' = op_reset_new_classes sops st;
               (r, m) = serialize_classes sops st' classes (serialized_functions l)
           in (r, l\<lparr>assembly_storage := st', serialized_functions := m\<rparr>)))"

text \<open>The loop that inserts the new records: tree and next index after it.\<close>

fun insert_records :: "'mt merkle_ops \<Rightarrow> 'mt \<Rightarrow> int \<Rightarrow> string list \<Rightarrow> 'mt \<times> int" where
  "insert_records ops tree idx [] = (tree, idx)"
| "insert_records ops tree idx (r # rs) = insert_records ops (mt_insert ops tree idx r) (idx + 1) rs"

text \<open>The state update at the end of \<open>verify_and_execute_transaction\<close>.\<close>

definition perform_state_update ::
  "'mt merkle_ops \<Rightarrow> ('mt, 'st) ledger \<Rightarrow> transaction \<Rightarrow> string list \<Rightarrow> ('mt, 'st) ledger" where
  "perform_state_update ops l t transaction_serials =
     (let (tree', idx') = insert_records ops (merkle_tree l) (next_record_idx l) (new_records t)
      in l\<lparr>published_serial_numbers := published_serial_numbers l \<union> set transaction_serials,
            published_unique_seeds := insert (unique_seed t) (published_unique_seeds l),
            merkle_tree := tree',
            next_record_idx := idx',
            accepted_transactions := accepted_transactions l @ [(transaction_serials, new_records t)]\<rparr>)"

text \<open>
  The method runs on the ledger object and either returns or raises. The model returns
  the exception, if any, together with the ledger as the call leaves it.
\<close>

definition verify_and_execute_transaction ::
  "'mt merkle_ops \<Rightarrow> ('mt, 'st) ledger \<Rightarrow> transaction \<Rightarrow> error option \<times> ('mt, 'st) ledger" where
  "verify_and_execute_transaction ops l t =
     (case collect_serials [] (consumed_serials t) of
        None \<Rightarrow> (Some (TxRejectedException ''serial numbers of transaction not unique''), l)
      | Some transaction_serials \<Rightarrow>
          if set transaction_serials \<inter> published_serial_numbers l \<noteq> {}
          then (Some (TxRejectedException
                  ''at least one serial number of transaction has been observed earlier''), l)
          else if unique_seed t \<in> published_unique_seeds l
          then (Some (TxRejectedException ''unique_seed has been observed earlier''), l)
          else if merkle_tree_root t \<noteq> mt_get_root ops (merkle_tree l)
          then (Some (TxRejectedException
                  ''transaction root does not match current merkle tree root''), l)
          else if transaction.current_time t \<noteq> current_time l
          then (Some (TxRejectedException ''timestamp of transaction invalid''), l)
          else
            (case get_serialized_function l (class_name t) (function_name t) of
               Inl e \<Rightarrow> (Some e, l)
             | Inr serialized_function \<Rightarrow>
                 (case verifier l of
                    None \<Rightarrow> (None, perform_state_update ops l t transaction_serials)
                  | Some v \<Rightarrow>
                      (case v (unique_seed t) (merkle_tree_root t) (consumed_serials t)
                              (new_records t)
                              (to_hex_str (sf_class_id serialized_function))
                              (to_hex_str (sf_function_id serialized_function))
                              (sf_instructions serialized_function)
                              (to_hex_str (current_time l))
                              (proof_hex t) of
                         Raises msg \<Rightarrow>
                           (Some (TxRejectedException
                              (''proof verification raised an error: '' @ msg)), l)
                       | Returns res \<Rightarrow>
                           if \<not> res
                           then (Some (TxRejectedException ''proof verification failed''), l)
                           else (None, perform_state_update ops l t transaction_serials)))))"

text \<open>
  A sequence of calls on one ledger: the accepted transactions in order, each with the
  ledger as it was when the call started, and the ledger after the whole sequence.
\<close>

fun accepted_run ::
  "'mt merkle_ops \<Rightarrow> ('mt, 'st) ledger \<Rightarrow> transaction list \<Rightarrow> (transaction \<times> ('mt, 'st) ledger) list" where
  "accepted_run ops l [] = []"
| "accepted_run ops l (t # ts) =
     (case verify_and_execute_transaction ops l t of
        (None, l') \<Rightarrow> (t, l) # accepted_run ops l' ts
      | (Some e, l') \<Rightarrow> accepted_run ops l' ts)"

text \<open>
  The operations of a ledger that change it, and a sequence of such calls; an exception
  ends a call and the next call finds the ledger as the failed one left it.
\<close>

datatype 'c ledger_call =
    VerifyAndExecuteTransaction "transaction"
  | RegisterClasses "'c list"
  | TestIncreaseCurrentTimeBy int

fun perform ::
  "'mt merkle_ops \<Rightarrow> ('st, 'c) storage_ops \<Rightarrow> 'c ledger_call \<Rightarrow> ('mt, 'st) ledger \<Rightarrow> ('mt, 'st) ledger" where
  "perform ops sops (VerifyAndExecuteTransaction t) l = snd (verify_and_execute_transaction ops l t)"
| "perform ops sops (RegisterClasses classes) l = snd (register_classes sops l classes)"
| "perform ops sops (TestIncreaseCurrentTimeBy amount) l = test_increase_current_time_by l amount"

text \<open>A concrete back-end for examples: the tree is the list of its insertions.\<close>

definition list_tree_ops :: "((int \<times> string) list) merkle_ops" where
  "list_tree_ops =
     \<lparr>mt_insert = (\<lambda>tree i r. tree @ [(i, r)]),
      mt_get_root = (\<lambda>tree. concat (map snd tree))\<rparr>"

definition example_function :: serialized_function where
  "example_function =
     \<lparr>sf_class_id = 0, sf_function_id = 0, sf_return_register = 2, sf_instructions = []\<rparr>"

definition example_ledger :: "((int \<times> string) list, unit) ledger" where
  "example_ledger =
     \<lparr>assembly_storage = (),
      serialized_functions = [(''Class'', ''f'') \<mapsto> example_function],
      published_serial_numbers = {},
      published_unique_seeds = {},
      merkle_tree = [],
      next_record_idx = 0,
      accepted_transactions = [],
      current_time = 5555,
      verifier = None\<rparr>"

definition example_tx :: "string \<Rightarrow> string \<Rightarrow> string list \<Rightarrow> string list \<Rightarrow> string \<Rightarrow> transaction" where
  "example_tx fn root serials records seed =
     \<lparr>class_name = ''Class'', function_name = fn, merkle_tree_root = root,
      consumed_serials = serials, new_records = records, proof_hex = None,
      unique_seed = seed, current_time = 5555\<rparr>"


definition example_txs :: "transaction list" where
  "example_txs =
     [example_tx ''f'' [] [''1'', ''2''] [''0acf'', ''11ce''] ''3cf102a'',
      example_tx ''f'' ''0acf11ce'' [''1''] [''fe00''] ''101010'',
      example_tx ''f'' ''0acf11ce'' [''3''] [''fe00''] ''3cf102a'',
      example_tx ''f'' [] [''3''] [''fe00''] ''101010'',
      example_tx ''f'' ''0acf11ce'' [''3''] [''fe00''] ''101010'']"

text \<open>A storage for examples that keeps nothing and serializes one function for any class.\<close>

definition unit_storage_ops :: "(unit, string) storage_ops" where
  "unit_storage_ops =
     \<lparr>op_add_class = (\<lambda>st c. (None, st)),
      op_link_new_classes = (\<lambda>st. (None, st)),
      op_check_new_classes = (\<lambda>st. (None, st)),
      op_inline_new_classes = (\<lambda>st. (None, st)),
      op_insert_runtime_checks_for_new_classes = (\<lambda>st. (None, st)),
      op_allocation_for_new_classes = (\<lambda>st. (None, st)),
      op_reset_new_classes = (\<lambda>st. st),
      op_serialize_class = (\<lambda>st c. ([((c, ''f''), example_function)], None))\<rparr>"

definition example_calls :: "string ledger_call list" where
  "example_calls =
     [VerifyAndExecuteTransaction (example_txs ! 0),
      RegisterClasses [''Other''],
      TestIncreaseCurrentTimeBy 10]"

section \<open>Helper lemmas\<close>


lemma sum_bind_simps [simp]:
  "sum_bind (Inl e) f = Inl e"
  "sum_bind (Inr x) f = f x"
  by (simp_all add: sum_bind_def)

section \<open>Properties of type checking\<close>












section \<open>Properties of the label check\<close>


lemma get_duplicates_loop_empty:
  "get_duplicates_loop xs U D = [] \<longleftrightarrow> D = [] \<and> distinct xs \<and> set xs \<inter> U = {}"
  by (induction xs arbitrary: U D) auto

lemma get_duplicates_empty: "get_duplicates xs = [] \<longleftrightarrow> distinct xs"
  by (simp add: get_duplicates_def get_duplicates_loop_empty)

lemma check_register_labels_succeeds_iff:
  "check_register_labels h f = Inr () \<longleftrightarrow>
     ''.'' \<notin> set (map (\<lambda>r. label (cells h r)) (function_registers f)) \<and>
     distinct (map (\<lambda>r. label (cells h r)) (function_registers f))"
proof -
  define names where "names = map (\<lambda>r. label (cells h r)) (function_registers f)"
  have ne: "names \<noteq> []" by (simp add: names_def function_registers_def)
  have wd: "filter (\<lambda>n. ''.'' \<in> set names) names = [] \<longleftrightarrow> ''.'' \<notin> set names"
    using ne by (cases "''.'' \<in> set names") simp_all
  have c: "check_register_labels h f =
     (if filter (\<lambda>n. ''.'' \<in> set names) names \<noteq> []
      then Inl (AssemblySecurityException
             (''Register labels with dots: '' @ join '' '' (filter (\<lambda>n. ''.'' \<in> set names) names)))
      else if get_duplicates names \<noteq> []
           then Inl (AssemblySecurityException
                  (''Register labels are not unique: '' @ join '' '' (get_duplicates names)))
           else Inr ())"
    unfolding check_register_labels_def Let_def names_def length_greater_0_conv by (rule refl)
  show ?thesis
    unfolding names_def [symmetric] c
    using wd get_duplicates_empty [of names] by auto
qed

text \<open>
  Claim C7 fails on the code: \<open>check_register_labels\<close> tests \<open>'.' in names\<close>, that is,
  whether some label is the string \<open>.\<close> itself, and not whether a label contains a dot.
  Register 1 of \<open>dotted_example\<close> is labelled \<open>a.b\<close> and the check succeeds.
\<close>

theorem dotted_label_passes_the_label_check:
  "check_register_labels dotted_heap dotted_example = Inr () \<and>
   label (cells dotted_heap 1) = ''a.b'' \<and>
   1 \<in> set (function_registers dotted_example)"
  by code_simp

section \<open>Properties of the constructor check and the compiler\<close>

lemma written_fields_loop_no_IndexError:
  "written_fields_loop r is W \<noteq> Inl IndexError"
proof (induction "is" arbitrary: W)
  case Nil
  then show ?case by simp
next
  case (Cons i rest)
  show ?case
  proof (cases "stored_field_name i")
    case (Inl e)
    then have "e = AttributeError"
      by (auto simp: stored_field_name_def split: option.splits val.splits field_target.splits)
    with Inl Cons show ?thesis by simp
  next
    case (Inr n)
    with Cons show ?thesis by simp
  qed
qed

lemma check_fields_written_no_IndexError:
  "check_fields_written c f ns W \<noteq> Inl IndexError"
  by (induction ns) simp_all

lemma check_all_fields_no_IndexError:
  "check_all_fields_initialized_for c f r is \<noteq> Inl IndexError"
proof (cases "written_fields_loop r is {}")
  case (Inl e)
  with written_fields_loop_no_IndexError [of r "is" "{}"] show ?thesis
    by (simp add: check_all_fields_initialized_for_def)
next
  case (Inr W)
  then show ?thesis
    by (simp add: check_all_fields_initialized_for_def check_fields_written_no_IndexError)
qed

lemma check_constructor_IndexError_iff:
  "check_constructor c f = Inl IndexError \<longleftrightarrow> instructions f = []"
proof (cases "instructions f")
  case Nil
  then show ?thesis by (simp add: check_constructor_def)
next
  case (Cons i0 rest)
  then show ?thesis
    using check_all_fields_no_IndexError [of c f "register i0" "i0 # rest"]
    by (simp add: check_constructor_def)
qed

lemma compiled_function_nonempty:
  assumes "zapper_function_to_assembly_function body h z = Inr (f, h')"
  shows "instructions f \<noteq> []"
  using assms
  by (auto simp: zapper_function_to_assembly_function_def Let_def append_def sum_bind_def
      split: prod.splits list.splits sum.splits if_splits)

text \<open>
  Claim C10. \<open>check_constructor\<close> fails with \<open>IndexError\<close> exactly on a function with
  an empty instruction list; every function the compiler returns has a non-empty list,
  whatever the body does, so the check never fails that way on a compiled function.
\<close>

theorem check_constructor_needs_an_instruction:
  "(check_constructor c f = Inl IndexError \<longleftrightarrow> instructions f = []) \<and>
   (zapper_function_to_assembly_function body h z = Inr (g, h') \<longrightarrow>
      instructions g \<noteq> [] \<and> check_constructor c g \<noteq> Inl IndexError)"
proof (intro conjI impI)
  show "check_constructor c f = Inl IndexError \<longleftrightarrow> instructions f = []"
    by (rule check_constructor_IndexError_iff)
next
  assume r: "zapper_function_to_assembly_function body h z = Inr (g, h')"
  then show "instructions g \<noteq> []" by (rule compiled_function_nonempty)
  then show "check_constructor c g \<noteq> Inl IndexError"
    by (simp add: check_constructor_IndexError_iff)
qed

theorem check_constructor_needs_an_instruction_witness:
  "\<not> isl (zapper_function_to_assembly_function empty_body (blank_heap 0) example_zapper_function) \<and>
   instructions (fst (projr
     (zapper_function_to_assembly_function empty_body (blank_heap 0) example_zapper_function))) \<noteq> [] \<and>
   check_constructor example_class (fst (projr
     (zapper_function_to_assembly_function empty_body (blank_heap 0) example_zapper_function)))
     \<noteq> Inl IndexError"
proof -
  let ?R = "zapper_function_to_assembly_function empty_body (blank_heap 0) example_zapper_function"
  have a: "\<not> isl ?R" by code_simp
  then have "?R = Inr (fst (projr ?R), snd (projr ?R))" by (cases ?R) simp_all
  from check_constructor_needs_an_instruction [THEN conjunct2, rule_format, OF this] a
  show ?thesis by blast
qed

section \<open>Properties of register allocation\<close>


lemma cells_set_location [simp]:
  "location (cells (set_location h r n) x) = (if x = r then n else location (cells h x))"
  by (simp add: set_location_def)

lemma proper_pop_Max: "proper_pop Max"
  by (simp add: proper_pop_def)






lemma fst_release_if_last [simp]: "fst (release_if_last lu k r s) = fst s"
  by (simp add: release_if_last_def)

lemma fst_fold_release [simp]: "fst (fold (release_if_last lu k) xs s) = fst s"
  by (induction xs arbitrary: s) simp_all








lemma run_upto_all: "run_upto pop h f (length (get_all_instructions f)) = run pop h f"
  by (simp add: run_upto_def run_def)

lemma run_upto_Suc:
  assumes "n < length (get_all_instructions f)"
  shows "run_upto pop h f (Suc n) =
           allocate_instruction pop (last_used_loop (enumerate 0 (get_all_instructions f)) Map.empty)
             (n, get_all_instructions f ! n) (run_upto pop h f n)"
proof -
  let ?all = "enumerate 0 (get_all_instructions f)"
  from assms have "take (Suc n) ?all = take n ?all @ [(n, get_all_instructions f ! n)]"
    by (simp add: take_Suc_conv_app_nth nth_enumerate_eq)
  then show ?thesis by (simp add: run_upto_def Let_def)
qed

lemma finite_next_free:
  "finite (free_registers a) \<Longrightarrow> finite (free_registers (snd (next_free_register pop a)))"
  by (simp add: next_free_register_def Let_def)

lemma finite_allocate:
  "finite (free_registers (snd s)) \<Longrightarrow> finite (free_registers (snd (allocate pop r s)))"
  by (simp add: allocate_def finite_next_free split: prod.splits)
     (metis finite_next_free snd_conv)

lemma finite_fold_allocate:
  "finite (free_registers (snd s)) \<Longrightarrow> finite (free_registers (snd (fold (allocate pop) rs s)))"
  by (induction rs arbitrary: s) (simp_all add: finite_allocate)

lemma finite_allocate_if_unset:
  "finite (free_registers (snd s)) \<Longrightarrow> finite (free_registers (snd (allocate_if_unset pop r s)))"
  by (simp add: allocate_if_unset_def finite_allocate)

lemma finite_fold_allocate_if_unset:
  "finite (free_registers (snd s)) \<Longrightarrow> finite (free_registers (snd (fold (allocate_if_unset pop) rs s)))"
  by (induction rs arbitrary: s) (simp_all add: finite_allocate_if_unset)

lemma finite_release:
  "finite (free_registers (snd s)) \<Longrightarrow> finite (free_registers (snd (release_if_last lu k r s)))"
  by (simp add: release_if_last_def)

lemma finite_fold_release:
  "finite (free_registers (snd s)) \<Longrightarrow> finite (free_registers (snd (fold (release_if_last lu k) rs s)))"
  by (induction rs arbitrary: s) (simp_all add: finite_release)

lemma finite_allocate_instruction:
  "finite (free_registers (snd s)) \<Longrightarrow> finite (free_registers (snd (allocate_instruction pop lu ki s)))"
  by (simp add: allocate_instruction_def finite_fold_release finite_fold_allocate_if_unset)

lemma finite_fold_allocate_instruction:
  "finite (free_registers (snd s)) \<Longrightarrow> finite (free_registers (snd (fold (allocate_instruction pop lu) kis s)))"
  by (induction kis arbitrary: s) (simp_all add: finite_allocate_instruction)

lemma finite_run_upto: "finite (free_registers (snd (run_upto pop h f n)))"
  by (simp add: run_upto_def Let_def finite_fold_allocate_instruction finite_fold_allocate
        finite_allocate RegisterAllocation_def)

lemma release_mono:
  "free_registers (snd s) \<subseteq> free_registers (snd (release_if_last lu k r s))"
  by (auto simp: release_if_last_def)

lemma fold_release_mono:
  "free_registers (snd s) \<subseteq> free_registers (snd (fold (release_if_last lu k) rs s))"
proof (induction rs arbitrary: s)
  case Nil
  then show ?case by simp
next
  case (Cons r rs)
  have "free_registers (snd s) \<subseteq> free_registers (snd (release_if_last lu k r s))"
    by (rule release_mono)
  also have "\<dots> \<subseteq> free_registers (snd (fold (release_if_last lu k) rs (release_if_last lu k r s)))"
    by (rule Cons.IH)
  finally show ?case by simp
qed

lemma fold_release_member:
  "r \<in> set rs \<Longrightarrow> lu r = Some k \<Longrightarrow>
     location (cells (fst s) r) \<in> free_registers (snd (fold (release_if_last lu k) rs s))"
proof (induction rs arbitrary: s)
  case Nil
  then show ?case by simp
next
  case (Cons x rs)
  show ?case
  proof (cases "x = r")
    case True
    with Cons.prems have "location (cells (fst s) r) \<in> free_registers (snd (release_if_last lu k x s))"
      by (simp add: release_if_last_def)
    with fold_release_mono [of "release_if_last lu k x s" lu k rs] show ?thesis by auto
  next
    case False
    with Cons.prems have "r \<in> set rs" by simp
    from Cons.IH [OF this Cons.prems(2), of "release_if_last lu k x s"] show ?thesis by simp
  qed
qed

lemma released_after_instruction:
  "r \<in> set (get_registers i) \<Longrightarrow> lu r = Some k \<Longrightarrow>
     location (cells (fst (allocate_instruction pop lu (k, i) s)) r)
       \<in> free_registers (snd (allocate_instruction pop lu (k, i) s))"
  using fold_release_member [of r "get_registers i" lu k "fold (allocate_if_unset pop) (get_registers i) s"]
  by (simp add: allocate_instruction_def)

lemma allocate_if_unset_from_pool:
  assumes "proper_pop pop" "finite (free_registers a)" "free_registers a \<noteq> {}"
    and "location (cells h r) = - 1"
  shows "location (cells (fst (allocate_if_unset pop r (h, a))) r) \<in> free_registers a"
    and "free_registers (snd (allocate_if_unset pop r (h, a)))
           = free_registers a - {location (cells (fst (allocate_if_unset pop r (h, a))) r)}"
    and "n_registers (snd (allocate_if_unset pop r (h, a))) = n_registers a"
proof -
  from assms(1-3) have "pop (free_registers a) \<in> free_registers a"
    by (simp add: proper_pop_def)
  with assms(3,4) show "location (cells (fst (allocate_if_unset pop r (h, a))) r) \<in> free_registers a"
    and "free_registers (snd (allocate_if_unset pop r (h, a)))
           = free_registers a - {location (cells (fst (allocate_if_unset pop r (h, a))) r)}"
    and "n_registers (snd (allocate_if_unset pop r (h, a))) = n_registers a"
    by (simp_all add: allocate_if_unset_def allocate_def next_free_register_def Let_def)
qed

lemma allocate_if_unset_counter:
  assumes "free_registers a = {}" and "location (cells h r) = - 1"
  shows "location (cells (fst (allocate_if_unset pop r (h, a))) r) = n_registers a"
    and "n_registers (snd (allocate_if_unset pop r (h, a))) = n_registers a + 1"
    and "free_registers (snd (allocate_if_unset pop r (h, a))) = {}"
  using assms by (simp_all add: allocate_if_unset_def allocate_def next_free_register_def)

text \<open>
  Claim C5, as the code has it. The pool starts empty and the counter at 0. An operand
  register without a slot gets an element of the free pool when the pool is not empty
  (the element \<open>set.pop()\<close> returns, which need not be the lowest), and that element
  leaves the pool; when the pool is empty it gets the value of the next-slot counter,
  which then grows by one. A register that has a slot keeps it. After an instruction
  is processed, the slot of every register whose last use is that instruction is in the
  free pool. A run is the sequence of these steps over the instructions.
\<close>

theorem allocation_takes_slots_from_the_pool:
  "free_registers RegisterAllocation = {} \<and> n_registers RegisterAllocation = 0 \<and>
   (proper_pop pop \<and> finite (free_registers a) \<and> free_registers a \<noteq> {}
      \<and> location (cells h r) = - 1 \<longrightarrow>
        location (cells (fst (allocate_if_unset pop r (h, a))) r) \<in> free_registers a \<and>
        free_registers (snd (allocate_if_unset pop r (h, a)))
          = free_registers a - {location (cells (fst (allocate_if_unset pop r (h, a))) r)} \<and>
        n_registers (snd (allocate_if_unset pop r (h, a))) = n_registers a) \<and>
   (free_registers a = {} \<and> location (cells h r) = - 1 \<longrightarrow>
        location (cells (fst (allocate_if_unset pop r (h, a))) r) = n_registers a \<and>
        n_registers (snd (allocate_if_unset pop r (h, a))) = n_registers a + 1) \<and>
   (location (cells h r) \<noteq> - 1 \<longrightarrow> allocate_if_unset pop r (h, a) = (h, a)) \<and>
   (r \<in> set (get_registers i) \<and> last_used r = Some k \<longrightarrow>
        location (cells (fst (allocate_instruction pop last_used (k, i) s)) r)
          \<in> free_registers (snd (allocate_instruction pop last_used (k, i) s))) \<and>
   finite (free_registers (snd (run_upto pop h f n))) \<and>
   (n < length (get_all_instructions f) \<longrightarrow>
        run_upto pop h f (Suc n) =
          allocate_instruction pop
            (last_used_loop (enumerate 0 (get_all_instructions f)) Map.empty)
            (n, get_all_instructions f ! n) (run_upto pop h f n)) \<and>
   run_upto pop h f (length (get_all_instructions f)) = run pop h f"
proof (intro conjI impI)
  show "free_registers RegisterAllocation = {}" and "n_registers RegisterAllocation = 0"
    by (simp_all add: RegisterAllocation_def)
next
  assume p: "proper_pop pop \<and> finite (free_registers a) \<and> free_registers a \<noteq> {}
      \<and> location (cells h r) = - 1"
  then have p1: "proper_pop pop" and p2: "finite (free_registers a)"
    and p3: "free_registers a \<noteq> {}" and p4: "location (cells h r) = - 1" by simp_all
  show "location (cells (fst (allocate_if_unset pop r (h, a))) r) \<in> free_registers a"
    by (rule allocate_if_unset_from_pool(1) [OF p1 p2 p3 p4])
  show "free_registers (snd (allocate_if_unset pop r (h, a)))
          = free_registers a - {location (cells (fst (allocate_if_unset pop r (h, a))) r)}"
    by (rule allocate_if_unset_from_pool(2) [OF p1 p2 p3 p4])
  show "n_registers (snd (allocate_if_unset pop r (h, a))) = n_registers a"
    by (rule allocate_if_unset_from_pool(3) [OF p1 p2 p3 p4])
next
  assume q: "free_registers a = {} \<and> location (cells h r) = - 1"
  then show "location (cells (fst (allocate_if_unset pop r (h, a))) r) = n_registers a"
    by (simp add: allocate_if_unset_counter(1))
  from q show "n_registers (snd (allocate_if_unset pop r (h, a))) = n_registers a + 1"
    by (simp add: allocate_if_unset_counter(2))
next
  assume "location (cells h r) \<noteq> - 1"
  then show "allocate_if_unset pop r (h, a) = (h, a)"
    by (simp add: allocate_if_unset_def)
next
  assume "r \<in> set (get_registers i) \<and> last_used r = Some k"
  then show "location (cells (fst (allocate_instruction pop last_used (k, i) s)) r)
          \<in> free_registers (snd (allocate_instruction pop last_used (k, i) s))"
    by (simp add: released_after_instruction)
next
  show "finite (free_registers (snd (run_upto pop h f n)))"
    by (rule finite_run_upto)
next
  assume "n < length (get_all_instructions f)"
  then show "run_upto pop h f (Suc n) =
          allocate_instruction pop
            (last_used_loop (enumerate 0 (get_all_instructions f)) Map.empty)
            (n, get_all_instructions f ! n) (run_upto pop h f n)"
    by (rule run_upto_Suc)
next
  show "run_upto pop h f (length (get_all_instructions f)) = run pop h f"
    by (rule run_upto_all)
qed

theorem allocation_takes_slots_from_the_pool_witness:
  "proper_pop Max \<and>
   location (cells (fst (allocate_if_unset Max 5
      (blank_heap 6, \<lparr>free_registers = {1, 2}, n_registers = 4\<rparr>))) 5) \<in> {1, 2} \<and>
   n_registers (snd (allocate_if_unset Max 5
      (blank_heap 6, \<lparr>free_registers = {1, 2}, n_registers = 4\<rparr>))) = 4 \<and>
   location (cells (fst (allocate_if_unset Max 5
      (blank_heap 6, \<lparr>free_registers = {}, n_registers = 4\<rparr>))) 5) = 4 \<and>
   n_registers (snd (allocate_if_unset Max 5
      (blank_heap 6, \<lparr>free_registers = {}, n_registers = 4\<rparr>))) = 5 \<and>
   allocate_if_unset Max 5 (set_location (blank_heap 6) 5 7, RegisterAllocation)
     = (set_location (blank_heap 6) 5 7, RegisterAllocation) \<and>
   location (cells (fst (allocate_instruction Max [2 \<mapsto> 3]
       (3, get_all_instructions pool_example ! 3) (blank_heap 6, RegisterAllocation))) 2)
     \<in> free_registers (snd (allocate_instruction Max [2 \<mapsto> 3]
       (3, get_all_instructions pool_example ! 3) (blank_heap 6, RegisterAllocation))) \<and>
   run_upto Max (blank_heap 6) pool_example (Suc 3) =
     allocate_instruction Max
       (last_used_loop (enumerate 0 (get_all_instructions pool_example)) Map.empty)
       (3, get_all_instructions pool_example ! 3) (run_upto Max (blank_heap 6) pool_example 3)"
proof -
  have p: "proper_pop Max" by (simp add: proper_pop_def)
  have g: "get_all_instructions pool_example ! 3 =
             Instruction (BinaryOperationInstruction PLUS) (Some 4) (Some (Register 2)) (Some (Register 3))"
    and n: "3 < length (get_all_instructions pool_example)"
    by (simp_all add: get_all_instructions_def pool_example_def example_function_of_def)
  have m: "2 \<in> set (get_registers (get_all_instructions pool_example ! 3))"
    by (simp add: g get_registers_def)
  have l: "location (cells (blank_heap 6) 5) = - 1" by (simp add: blank_heap_def)
  have a: "location (cells (fst (allocate_if_unset Max 5
      (blank_heap 6, \<lparr>free_registers = {1, 2}, n_registers = 4\<rparr>))) 5) \<in> {1, 2} \<and>
     n_registers (snd (allocate_if_unset Max 5
      (blank_heap 6, \<lparr>free_registers = {1, 2}, n_registers = 4\<rparr>))) = 4"
    using p l allocation_takes_slots_from_the_pool
        [of Max "\<lparr>free_registers = {1, 2}, n_registers = 4\<rparr>" "blank_heap 6" 5]
    by simp
  have b: "location (cells (fst (allocate_if_unset Max 5
      (blank_heap 6, \<lparr>free_registers = {}, n_registers = 4\<rparr>))) 5) = 4 \<and>
     n_registers (snd (allocate_if_unset Max 5
      (blank_heap 6, \<lparr>free_registers = {}, n_registers = 4\<rparr>))) = 5"
    using l allocation_takes_slots_from_the_pool
        [of Max "\<lparr>free_registers = {}, n_registers = 4\<rparr>" "blank_heap 6" 5]
    by simp
  have c: "allocate_if_unset Max 5 (set_location (blank_heap 6) 5 7, RegisterAllocation)
     = (set_location (blank_heap 6) 5 7, RegisterAllocation)"
    using allocation_takes_slots_from_the_pool
        [of Max RegisterAllocation "set_location (blank_heap 6) 5 7" 5]
    by simp
  have d: "location (cells (fst (allocate_instruction Max [2 \<mapsto> 3]
       (3, get_all_instructions pool_example ! 3) (blank_heap 6, RegisterAllocation))) 2)
     \<in> free_registers (snd (allocate_instruction Max [2 \<mapsto> 3]
       (3, get_all_instructions pool_example ! 3) (blank_heap 6, RegisterAllocation)))"
    using m allocation_takes_slots_from_the_pool
        [of Max RegisterAllocation "blank_heap 6" 2 "get_all_instructions pool_example ! 3"
            "[2 \<mapsto> 3]" 3 "(blank_heap 6, RegisterAllocation)"]
    by simp
  have e: "run_upto Max (blank_heap 6) pool_example (Suc 3) =
     allocate_instruction Max
       (last_used_loop (enumerate 0 (get_all_instructions pool_example)) Map.empty)
       (3, get_all_instructions pool_example ! 3) (run_upto Max (blank_heap 6) pool_example 3)"
    using n allocation_takes_slots_from_the_pool
        [of Max RegisterAllocation "blank_heap 6" 5 _ _ _ _ pool_example 3]
    by simp
  from p a b c d e show ?thesis by simp
qed

text \<open>
  The claim as stated fails: with a \<open>pop\<close> that returns the greatest element (CPython's
  \<open>set.pop\<close> does so here, since it resumes its scan after the entry it returned last),
  the last instruction of \<open>pool_example\<close> finds the free pool \<open>{1, 2}\<close> and its
  destination, which has no slot, is given slot 2, not the lowest slot 1.
\<close>

theorem lowest_slot_counterexample:
  "proper_pop Max \<and>
   free_registers (snd (run_upto Max (blank_heap 6) pool_example 4)) = {1, 2} \<and>
   location (cells (fst (run_upto Max (blank_heap 6) pool_example 4)) 5) = - 1 \<and>
   location (cells (fst (run_upto Max (blank_heap 6) pool_example 5)) 5) = 2 \<and>
   location (cells (register_allocation_of Max (blank_heap 6) pool_example) 5) = 2 \<and>
   Min (free_registers (snd (run_upto Max (blank_heap 6) pool_example 4))) = 1"
proof -
  have p: "proper_pop Max" by (simp add: proper_pop_def)
  have a: "free_registers (snd (run_upto Max (blank_heap 6) pool_example 4)) = {1, 2}"
    by code_simp
  have b: "location (cells (fst (run_upto Max (blank_heap 6) pool_example 4)) 5) = - 1"
    by code_simp
  have c: "location (cells (fst (run_upto Max (blank_heap 6) pool_example 5)) 5) = 2"
    by code_simp
  have d: "location (cells (register_allocation_of Max (blank_heap 6) pool_example) 5) = 2"
    by code_simp
  from p a b c d show ?thesis by simp
qed

section \<open>Inlining removes every call\<close>

lemma is_call_iff: "is_call i \<longleftrightarrow> (\<exists>t a s. iclass i = CallInstruction t a s)"
proof (cases i)
  case (Instruction k r v1 v2)
  then show ?thesis by (cases k) simp_all
qed







lemma get_class_Some:
  "get_class st n = Some c \<Longrightarrow> c \<in> set (assembly_classes st) \<and> qualified_name c = n"
  by (auto simp: get_class_def find_Some_iff)

lemma get_function_Some:
  "get_function c n = Some f \<Longrightarrow>
     f \<in> set (class_functions c) \<and> assembly_function.function_name f = n"
  by (auto simp: get_function_def find_Some_iff)

lemma sum_bind_Inr_iff:
  "sum_bind m f = Inr y \<longleftrightarrow> (\<exists>x. m = Inr x \<and> f x = Inr y)"
  by (cases m) (simp_all add: sum_bind_def)

lemma inline_call_cases:
  assumes "inline_call h st self k instr target args sis = Inr (block, h1)"
  obtains cn fn ar rr c callee bind_me where
    "target = AssemblyFunction cn fn ar rr" and "get_class st cn = Some c"
    and "get_function c fn = Some callee"
    and "h1 = snd (clone_for_inlining h callee (''inlined#'' @ str_nat k))"
    and "bind_me =
           (if sis
            then Instruction PublicKeyInstruction
                   (Some (me_register (fst (clone_for_inlining h callee (''inlined#'' @ str_nat k)))))
                   (Some (Register (hd (argument_registers self)))) None
            else Instruction MoveInstruction
                   (Some (me_register (fst (clone_for_inlining h callee (''inlined#'' @ str_nat k)))))
                   (Some (Register (me_register self))) None)"
    and "sis \<Longrightarrow> argument_registers self \<noteq> []"
    and "block = [bind_me]
            @ map (\<lambda>(parameter, argument).
                     Instruction MoveInstruction (Some parameter) (Some argument) None)
                (zip (argument_registers (fst (clone_for_inlining h callee (''inlined#'' @ str_nat k))))
                   args)
            @ instructions (fst (clone_for_inlining h callee (''inlined#'' @ str_nat k)))
            @ [Instruction MoveInstruction (register instr)
                 (Some (Register (return_register
                    (fst (clone_for_inlining h callee (''inlined#'' @ str_nat k)))))) None]"
proof -
  from assms obtain cn fn ar rr where t: "target = AssemblyFunction cn fn ar rr"
    by (cases target) (simp_all add: inline_call_def)
  from assms t obtain c where c: "get_class st cn = Some c"
    by (cases "get_class st cn") (simp_all add: inline_call_def)
  from assms t c obtain callee where f: "get_function c fn = Some callee"
    by (cases "get_function c fn") (simp_all add: inline_call_def)
  obtain cl h' where cl: "clone_for_inlining h callee (''inlined#'' @ str_nat k) = (cl, h')"
    by (cases "clone_for_inlining h callee (''inlined#'' @ str_nat k)")
  show ?thesis
  proof (cases sis)
    case True
    with assms t c f cl obtain a0 as where a: "argument_registers self = a0 # as"
      by (cases "argument_registers self") (simp_all add: inline_call_def)
    with assms t c f cl True show ?thesis
      by (intro that [of cn fn ar rr c callee]) (auto simp: inline_call_def)
  next
    case False
    with assms t c f cl show ?thesis
      by (intro that [of cn fn ar rr c callee]) (auto simp: inline_call_def)
  qed
qed







lemma keys_remove_node: "fst ` set (remove_node g n) = fst ` set g - {n}"
  unfolding remove_node_def by force

lemma remove_node_entry:
  assumes "kv' \<in> set (remove_node g n)"
  shows "\<exists>kv \<in> set g. fst kv' = fst kv \<and> snd kv' = remove1 n (snd kv) \<and> fst kv \<noteq> n"
  using assms unfolding remove_node_def by force




lemma inline_function_cases:
  assumes "inline_function h st cn fn = Inr (h1, st1)"
  obtains c prev f' where "get_class st cn = Some c" and "get_function c fn = Some prev"
    and "inline h st prev = Inr (f', h1)" and "st1 = replace_function st cn fn f'"
proof -
  from assms obtain c where c: "get_class st cn = Some c"
    by (cases "get_class st cn") (simp_all add: inline_function_def)
  from assms c obtain prev where f: "get_function c fn = Some prev"
    by (cases "get_function c fn") (simp_all add: inline_function_def)
  from assms c f obtain x where x: "inline h st prev = Inr x"
    and y: "(\<lambda>(f', h1). Inr (h1, replace_function st cn fn f')) x = Inr (h1, st1)"
    by (auto simp: inline_function_def sum_bind_Inr_iff)
  obtain f' h2 where "x = (f', h2)" by (cases x)
  with x y have "inline h st prev = Inr (f', h1)" "st1 = replace_function st cn fn f'"
    by simp_all
  with c f show ?thesis by (rule that)
qed





lemma map_fst_dict_set:
  "map fst (dict_set d k v) = (if k \<in> set (map fst d) then map fst d else map fst d @ [k])"
proof -
  have "map fst (map (\<lambda>kv. if fst kv = k then (k, v) else kv) d) = map fst d"
    by (induction d) auto
  then show ?thesis by (simp add: dict_set_def)
qed

lemma keys_dict_set: "fst ` set (dict_set d k v) = insert k (fst ` set d)"
proof -
  have "fst ` set (dict_set d k v) = set (map fst (dict_set d k v))" by simp
  also have "\<dots> = insert k (fst ` set d)" unfolding map_fst_dict_set by auto
  finally show ?thesis .
qed

lemma distinct_dict_set:
  "distinct (map fst d) \<Longrightarrow> distinct (map fst (dict_set d k v))"
  unfolding map_fst_dict_set by simp



lemma cof_keys:
  "callgraph_of_functions names cn fs g = Inr g' \<Longrightarrow>
     fst ` set g' = fst ` set g \<union> (\<lambda>f. (cn, assembly_function.function_name f)) ` set fs"
proof (induction fs arbitrary: g)
  case Nil
  then show ?case by simp
next
  case (Cons f fs)
  from Cons.prems obtain called where
    r: "callgraph_of_functions names cn fs
          (dict_set g (cn, assembly_function.function_name f)
             (filter (\<lambda>(c, g). c \<in> set names) called)) = Inr g'"
    by (auto simp: sum_bind_Inr_iff)
  from Cons.IH [OF r] show ?case by (simp add: keys_dict_set)
qed


lemma cof_distinct:
  "callgraph_of_functions names cn fs g = Inr g' \<Longrightarrow> distinct (map fst g)
     \<Longrightarrow> distinct (map fst g')"
proof (induction fs arbitrary: g)
  case Nil
  then show ?case by simp
next
  case (Cons f fs)
  from Cons.prems(1) obtain called where
    r: "callgraph_of_functions names cn fs
          (dict_set g (cn, assembly_function.function_name f)
             (filter (\<lambda>(c, g). c \<in> set names) called)) = Inr g'"
    by (auto simp: sum_bind_Inr_iff)
  show ?case by (rule Cons.IH [OF r]) (rule distinct_dict_set [OF Cons.prems(2)])
qed

lemma coc_cases:
  assumes "callgraph_of_classes st names (n # ns) g = Inr g'"
  obtains c g1 where "get_class st n = Some c"
    and "callgraph_of_functions names (qualified_name c) (class_functions c) g = Inr g1"
    and "callgraph_of_classes st names ns g1 = Inr g'"
proof -
  from assms obtain c where c: "get_class st n = Some c"
    by (cases "get_class st n") simp_all
  with assms obtain g1 where
    "callgraph_of_functions names (qualified_name c) (class_functions c) g = Inr g1"
    "callgraph_of_classes st names ns g1 = Inr g'"
    by (auto simp: sum_bind_Inr_iff)
  with c show ?thesis by (rule that)
qed

lemma coc_keys:
  "callgraph_of_classes st names ns g = Inr g' \<Longrightarrow>
     fst ` set g' = fst ` set g \<union>
       {k. \<exists>n c f. n \<in> set ns \<and> get_class st n = Some c \<and> f \<in> set (class_functions c) \<and>
             k = (qualified_name c, assembly_function.function_name f)}"
proof (induction ns arbitrary: g)
  case Nil
  then show ?case by simp
next
  case (Cons n ns)
  from Cons.prems obtain c g1 where c: "get_class st n = Some c"
    and a: "callgraph_of_functions names (qualified_name c) (class_functions c) g = Inr g1"
    and b: "callgraph_of_classes st names ns g1 = Inr g'"
    by (rule coc_cases)
  from Cons.IH [OF b] cof_keys [OF a] c show ?case by auto
qed


lemma coc_distinct:
  "callgraph_of_classes st names ns g = Inr g' \<Longrightarrow> distinct (map fst g)
     \<Longrightarrow> distinct (map fst g')"
proof (induction ns arbitrary: g)
  case Nil
  then show ?case by simp
next
  case (Cons n ns)
  from Cons.prems(1) obtain c g1 where c: "get_class st n = Some c"
    and a: "callgraph_of_functions names (qualified_name c) (class_functions c) g = Inr g1"
    and b: "callgraph_of_classes st names ns g1 = Inr g'"
    by (rule coc_cases)
  show ?case by (rule Cons.IH [OF b]) (rule cof_distinct [OF a Cons.prems(2)])
qed

lemma build_callgraph_keys:
  assumes "build_callgraph st = Inr g"
  shows "fst ` set g =
       {k. \<exists>n c f. n \<in> set (classes_to_check st) \<and> get_class st n = Some c \<and>
             f \<in> set (class_functions c) \<and>
             k = (qualified_name c, assembly_function.function_name f)}"
  using coc_keys [OF assms [unfolded build_callgraph_def]] by simp


lemma build_callgraph_distinct:
  assumes "build_callgraph st = Inr g"
  shows "distinct (map fst g)"
  using coc_distinct [OF assms [unfolded build_callgraph_def]] by simp


lemma distinct_map_eq:
  "distinct (map k xs) \<Longrightarrow> x \<in> set xs \<Longrightarrow> y \<in> set xs \<Longrightarrow> k x = k y \<Longrightarrow> x = y"
  by (auto simp: distinct_map dest: inj_onD)









section \<open>A cycle in the call graph stops inlining\<close>

lemma walk_edges:
  "walk g a xs \<Longrightarrow> x \<in> set (butlast (a # xs)) \<Longrightarrow> \<exists>b \<in> set xs. edge g x b"
proof (induction xs arbitrary: a)
  case Nil
  then show ?case by simp
next
  case (Cons b rest)
  from Cons.prems(2) have "x = a \<or> x \<in> set (butlast (b # rest))" by simp
  then show ?case
  proof
    assume "x = a"
    with Cons.prems(1) show ?thesis by auto
  next
    assume "x \<in> set (butlast (b # rest))"
    with Cons.IH [of b] Cons.prems(1) show ?thesis by auto
  qed
qed

lemma edge_entry: "edge g a b \<Longrightarrow> \<exists>kv \<in> set g. fst kv = a \<and> b \<in> set (snd kv)"
  by (simp add: edge_def list_ex_iff)

lemma cycle_trapped:
  assumes d: "distinct (map fst g)" and c: "cycle g ns"
  shows "trapped g (set ns)"
proof -
  from c obtain n rest where ns: "ns = n # rest" by (cases ns) simp_all
  with c have w: "walk g n (rest @ [n])" by simp
  have out: "\<exists>b \<in> set ns. edge g x b" if "x \<in> set ns" for x
  proof -
    from that ns have "x \<in> set (butlast (n # rest @ [n]))" by (simp add: butlast_append)
    from walk_edges [OF w this] ns show ?thesis by auto
  qed
  have "set ns \<noteq> {}" by (simp add: ns)
  moreover have "set ns \<subseteq> fst ` set g"
  proof
    fix x
    assume "x \<in> set ns"
    from out [OF this] obtain b where "edge g x b" by blast
    from edge_entry [OF this] show "x \<in> fst ` set g" by force
  qed
  moreover have "\<forall>kv \<in> set g. fst kv \<in> set ns \<longrightarrow> (\<exists>b \<in> set ns. b \<in> set (snd kv))"
  proof (intro ballI impI)
    fix kv
    assume kv: "kv \<in> set g" and "fst kv \<in> set ns"
    from out [OF this(2)] obtain b where b: "b \<in> set ns" "edge g (fst kv) b" by blast
    from edge_entry [OF b(2)] obtain kv' where kv': "kv' \<in> set g" "fst kv' = fst kv"
      "b \<in> set (snd kv')"
      by blast
    from distinct_map_eq [OF d kv'(1) kv kv'(2)] have "kv' = kv" .
    with kv'(3) b(1) show "\<exists>b \<in> set ns. b \<in> set (snd kv)" by blast
  qed
  ultimately show ?thesis unfolding trapped_def by simp
qed

lemma trapped_step:
  assumes t: "trapped g S" and kv: "kv \<in> set g" "snd kv = []"
  shows "trapped (remove_node g (fst kv)) S"
proof -
  from t have ne: "S \<noteq> {}" and sub: "S \<subseteq> fst ` set g"
    and out: "\<And>e. e \<in> set g \<Longrightarrow> fst e \<in> S \<Longrightarrow> \<exists>b \<in> S. b \<in> set (snd e)"
    unfolding trapped_def by blast+
  have n: "fst kv \<notin> S"
  proof
    assume "fst kv \<in> S"
    from out [OF kv(1) this] kv(2) show False by simp
  qed
  from sub n have "S \<subseteq> fst ` set (remove_node g (fst kv))"
    unfolding keys_remove_node by blast
  moreover have "\<forall>e' \<in> set (remove_node g (fst kv)). fst e' \<in> S
                   \<longrightarrow> (\<exists>b \<in> S. b \<in> set (snd e'))"
  proof (intro ballI impI)
    fix e'
    assume e': "e' \<in> set (remove_node g (fst kv))" and s: "fst e' \<in> S"
    from remove_node_entry [OF e'] obtain e where e: "e \<in> set g" "fst e' = fst e"
      "snd e' = remove1 (fst kv) (snd e)"
      by blast
    from out [OF e(1)] s e(2) obtain b where b: "b \<in> S" "b \<in> set (snd e)" by auto
    from b(1) n have "b \<noteq> fst kv" by blast
    with b(2) have "b \<in> set (snd e')" by (simp add: e(3))
    with b(1) show "\<exists>b \<in> S. b \<in> set (snd e')" by blast
  qed
  ultimately show ?thesis using ne unfolding trapped_def by simp
qed

lemma trapped_nonempty: "trapped g S \<Longrightarrow> g \<noteq> []"
  unfolding trapped_def by auto

lemma inline_remaining_trapped:
  assumes "trapped g S"
  shows "\<exists>e. inline_remaining h st g = Inl e"
  using assms
proof (induction h st g rule: inline_remaining.induct)
  case (1 h st g)
  from trapped_nonempty [OF "1.prems"] have ne: "g \<noteq> []" .
  show ?case
  proof (cases "find (\<lambda>kv. snd kv = []) g")
    case None
    with ne show ?thesis by (simp add: inline_remaining.simps [of h st g])
  next
    case (Some kv)
    then have kv: "kv \<in> set g" "snd kv = []" by (auto simp: find_Some_iff)
    show ?thesis
    proof (cases "inline_function h st (fst (fst kv)) (snd (fst kv))")
      case (Inl e)
      with ne Some show ?thesis by (simp add: inline_remaining.simps [of h st g])
    next
      case (Inr hs)
      from "1.IH" [OF ne Some Inr trapped_step [OF "1.prems" kv]]
      obtain e where "inline_remaining (fst hs) (snd hs) (remove_node g (fst kv)) = Inl e"
        by blast
      with ne Some Inr show ?thesis by (simp add: inline_remaining.simps [of h st g])
    qed
  qed
qed

lemma inline_call_succeeds:
  assumes "call_resolves st self instr" and "iclass instr = CallInstruction t a s"
  shows "\<exists>r. inline_call h st self k instr t a s = Inr r"
proof -
  from assms obtain cn fn ar rr where t: "t = AssemblyFunction cn fn ar rr"
    by (cases t) (simp_all add: call_resolves_def)
  from assms t obtain c where c: "get_class st cn = Some c"
    by (cases "get_class st cn") (simp_all add: call_resolves_def)
  from assms t c obtain callee where f: "get_function c fn = Some callee"
    by (cases "get_function c fn") (simp_all add: call_resolves_def)
  obtain cl h' where cl: "clone_for_inlining h callee (''inlined#'' @ str_nat k) = (cl, h')"
    by (cases "clone_for_inlining h callee (''inlined#'' @ str_nat k)")
  show ?thesis
  proof (cases s)
    case True
    with assms t c f obtain a0 as where "argument_registers self = a0 # as"
      by (cases "argument_registers self") (simp_all add: call_resolves_def)
    with t c f cl True show ?thesis by (simp add: inline_call_def)
  next
    case False
    with t c f cl show ?thesis by (simp add: inline_call_def)
  qed
qed

lemma inline_loop_succeeds:
  assumes "list_all (call_resolves st self) (map snd kis)"
  shows "\<exists>r. inline_loop h st self kis acc = Inr r"
  using assms
proof (induction kis arbitrary: h acc)
  case Nil
  then show ?case by simp
next
  case (Cons ki rest)
  obtain k instr where ki: "ki = (k, instr)" by (cases ki)
  from Cons.prems ki have hd: "call_resolves st self instr"
    and tl: "list_all (call_resolves st self) (map snd rest)"
    by simp_all
  show ?case
  proof (cases "is_call instr")
    case False
    have step: "inline_loop h st self (ki # rest) acc = inline_loop h st self rest (acc @ [instr])"
    proof (cases "iclass instr")
      case (CallInstruction t a s)
      with False show ?thesis by (simp add: is_call_iff)
    qed (simp_all add: ki)
    from Cons.IH [OF tl] show ?thesis unfolding step .
  next
    case True
    then obtain t a s where c: "iclass instr = CallInstruction t a s"
      unfolding is_call_iff by blast
    have step: "inline_loop h st self (ki # rest) acc =
                  sum_bind (inline_call h st self k instr t a s)
                    (\<lambda>(block, h1). inline_loop h1 st self rest (acc @ block))"
      by (simp add: ki c)
    from inline_call_succeeds [OF hd c] obtain block h1 where
      b: "inline_call h st self k instr t a s = Inr (block, h1)"
      by fastforce
    from Cons.IH [OF tl, of h1 "acc @ block"] show ?thesis unfolding step b by simp
  qed
qed

lemma inline_succeeds:
  assumes "list_all (call_resolves st self) (instructions self)"
  shows "\<exists>r. inline h st self = Inr r"
proof -
  from assms
  have "list_all (call_resolves st self) (map snd (enumerate 0 (instructions self)))"
    by simp
  from inline_loop_succeeds [OF this] obtain res h1 where
    "inline_loop h st self (enumerate 0 (instructions self)) [] = Inr (res, h1)"
    by fastforce
  then show ?thesis by (simp add: inline_def)
qed

lemma inline_function_succeeds:
  assumes "nodes_resolve st g" and "kv \<in> set g"
  shows "\<exists>hs. inline_function h st (fst (fst kv)) (snd (fst kv)) = Inr hs"
proof -
  from assms obtain c f where c: "get_class st (fst (fst kv)) = Some c"
    and f: "get_function c (snd (fst kv)) = Some f"
    and r: "list_all (call_resolves st f) (instructions f)"
    unfolding nodes_resolve_def by fastforce
  from inline_succeeds [OF r] obtain f' h1 where "inline h st f = Inr (f', h1)"
    by fastforce
  with c f show ?thesis by (simp add: inline_function_def)
qed

lemma find_map_preserving:
  "(\<And>x. P (m x) = P x) \<Longrightarrow> find P (map m xs) = map_option m (find P xs)"
  by (induction xs) simp_all

lemma get_class_replace:
  "get_class (replace_function st cn fn f') x =
     map_option
       (\<lambda>c. if qualified_name c = cn
             then c\<lparr>class_functions :=
                      map (\<lambda>f. if assembly_function.function_name f = fn then f' else f)
                        (class_functions c)\<rparr>
             else c)
       (get_class st x)"
  unfolding get_class_def replace_function_def
  by (simp add: find_map_preserving)

lemma get_function_replace:
  assumes "assembly_function.function_name f' = fn"
  shows "get_function
           (c\<lparr>class_functions :=
                map (\<lambda>f. if assembly_function.function_name f = fn then f' else f)
                  (class_functions c)\<rparr>) x =
         map_option (\<lambda>f. if assembly_function.function_name f = fn then f' else f)
           (get_function c x)"
  unfolding get_function_def using assms
  by (simp add: find_map_preserving)

lemma call_resolves_replace:
  assumes "assembly_function.function_name f' = fn"
  shows "call_resolves (replace_function st cn fn f') self i = call_resolves st self i"
proof (cases "iclass i")
  case (CallInstruction t a s)
  show ?thesis
  proof (cases t)
    case (FunctionReference c n ty)
    with CallInstruction show ?thesis by (simp add: call_resolves_def)
  next
    case (AssemblyFunction c n ar rr)
    show ?thesis
    proof (cases "get_class st c")
      case None
      with CallInstruction AssemblyFunction show ?thesis
        by (simp add: call_resolves_def get_class_replace)
    next
      case (Some cl)
      with CallInstruction AssemblyFunction assms show ?thesis
        by (simp add: call_resolves_def get_class_replace get_function_replace)
    qed
  qed
qed (simp_all add: call_resolves_def)

lemma inline_name:
  "inline h st self = Inr (f', h') \<Longrightarrow>
     assembly_function.function_name f' = assembly_function.function_name self"
  by (auto simp: inline_def sum_bind_Inr_iff)

lemma nodes_resolve_step:
  assumes nr: "nodes_resolve st g"
    and i: "inline_function h st cn fn = Inr (h1, st1)"
  shows "nodes_resolve st1 (remove_node g (cn, fn))"
  unfolding nodes_resolve_def
proof
  fix k
  assume "k \<in> fst ` set (remove_node g (cn, fn))"
  then have k: "k \<in> fst ` set g" "k \<noteq> (cn, fn)" unfolding keys_remove_node by simp_all
  from i obtain c0 prev f' where c0: "get_class st cn = Some c0"
    and p: "get_function c0 fn = Some prev"
    and inl: "inline h st prev = Inr (f', h1)" and st1: "st1 = replace_function st cn fn f'"
    by (rule inline_function_cases)
  from inline_name [OF inl] get_function_Some [OF p]
  have nm: "assembly_function.function_name f' = fn" by simp
  from nr k(1) obtain c f where c: "get_class st (fst k) = Some c"
    and f: "get_function c (snd k) = Some f"
    and r: "list_all (call_resolves st f) (instructions f)"
    unfolding nodes_resolve_def by blast
  from get_class_Some [OF c] have cq: "qualified_name c = fst k" by simp
  from get_function_Some [OF f] have fq: "assembly_function.function_name f = snd k" by simp
  let ?c1 = "if qualified_name c = cn
             then c\<lparr>class_functions :=
                      map (\<lambda>f. if assembly_function.function_name f = fn then f' else f)
                        (class_functions c)\<rparr>
             else c"
  have c1: "get_class st1 (fst k) = Some ?c1"
    unfolding st1 get_class_replace c by simp
  have f1: "get_function ?c1 (snd k) = Some f"
  proof (cases "qualified_name c = cn")
    case False
    with f show ?thesis by simp
  next
    case True
    with cq fq k(2) have "assembly_function.function_name f \<noteq> fn"
      by (cases k) auto
    with True f show ?thesis by (simp add: get_function_replace [OF nm])
  qed
  have "call_resolves (replace_function st cn fn f') f = call_resolves st f"
    by (rule ext) (rule call_resolves_replace [OF nm])
  with r have r1: "list_all (call_resolves st1 f) (instructions f)"
    unfolding st1 by simp
  from c1 f1 r1
  show "\<exists>c f. get_class st1 (fst k) = Some c \<and> get_function c (snd k) = Some f \<and>
          list_all (call_resolves st1 f) (instructions f)"
    by blast
qed

lemma inline_remaining_cycle_error:
  assumes "trapped g S" and "nodes_resolve st g"
  shows "inline_remaining h st g
           = Inl (AssertionError ''detected cycle in call graph, cannot inline'')"
  using assms
proof (induction h st g rule: inline_remaining.induct)
  case (1 h st g)
  from trapped_nonempty [OF "1.prems"(1)] have ne: "g \<noteq> []" .
  show ?case
  proof (cases "find (\<lambda>kv. snd kv = []) g")
    case None
    with ne show ?thesis by (simp add: inline_remaining.simps [of h st g])
  next
    case (Some kv)
    then have kv: "kv \<in> set g" "snd kv = []" by (auto simp: find_Some_iff)
    from inline_function_succeeds [OF "1.prems"(2) kv(1)] obtain hs where
      i: "inline_function h st (fst (fst kv)) (snd (fst kv)) = Inr hs"
      by blast
    then have i': "inline_function h st (fst (fst kv)) (snd (fst kv)) = Inr (fst hs, snd hs)"
      by simp
    from nodes_resolve_step [OF "1.prems"(2) i']
    have nr: "nodes_resolve (snd hs) (remove_node g (fst kv))" by simp
    from "1.IH" [OF ne Some i trapped_step [OF "1.prems"(1) kv] nr] ne Some i
    show ?thesis by (simp add: inline_remaining.simps [of h st g])
  qed
qed

lemma initial_nodes_resolve:
  assumes cr: "calls_resolve st" and b: "build_callgraph st = Inr g"
  shows "nodes_resolve st g"
  unfolding nodes_resolve_def
proof
  fix k
  assume "k \<in> fst ` set g"
  then obtain n c and f :: assembly_function where n: "n \<in> set (classes_to_check st)"
    and c: "get_class st n = Some c" and f: "f \<in> set (class_functions c)"
    and k: "k = (qualified_name c, assembly_function.function_name f)"
    unfolding build_callgraph_keys [OF b] by blast
  from get_class_Some [OF c] have q: "qualified_name c = n" by simp
  from f obtain f0 where f0: "get_function c (assembly_function.function_name f) = Some f0"
    by (cases "get_function c (assembly_function.function_name f)")
      (auto simp: get_function_def find_None_iff)
  from get_function_Some [OF f0] have f0m: "f0 \<in> set (class_functions c)" by simp
  from cr n c have "list_all (\<lambda>f. list_all (call_resolves st f) (instructions f))
                      (class_functions c)"
    by (auto simp: calls_resolve_def list_all_iff)
  with f0m have "list_all (call_resolves st f0) (instructions f0)" by (simp add: list_all_iff)
  with c f0 k q
  show "\<exists>c f. get_class st (fst k) = Some c \<and> get_function c (snd k) = Some f \<and>
          list_all (call_resolves st f) (instructions f)"
    by auto
qed

text \<open>
  Claim C4, as the code has it. When the call graph that \<open>inline_new_classes\<close> builds
  over the classes to check has a cycle, \<open>inline_new_classes\<close> never succeeds; and when
  moreover every call of these classes resolves (it is linked, the storage holds the
  function it names, and a call with \<open>sender_is_self\<close> stands in a function with an
  argument), the error raised is the \<open>AssertionError\<close> with the message
  \<open>detected cycle in call graph, cannot inline\<close>.
\<close>

theorem cyclic_call_graph_fails_to_inline:
  "build_callgraph st = Inr g \<and> cycle g ns \<longrightarrow>
     (\<exists>e. inline_new_classes h st = Inl e) \<and>
     (calls_resolve st \<longrightarrow>
        inline_new_classes h st
          = Inl (AssertionError ''detected cycle in call graph, cannot inline''))"
proof (intro impI conjI)
  assume a: "build_callgraph st = Inr g \<and> cycle g ns"
  then have b: "build_callgraph st = Inr g" and c: "cycle g ns" by simp_all
  from cycle_trapped [OF build_callgraph_distinct [OF b] c] have t: "trapped g (set ns)" .
  from inline_remaining_trapped [OF t, of h st] b
  show "\<exists>e. inline_new_classes h st = Inl e" by (simp add: inline_new_classes_def)
  assume "calls_resolve st"
  from inline_remaining_cycle_error [OF t initial_nodes_resolve [OF this b], of h] b
  show "inline_new_classes h st
          = Inl (AssertionError ''detected cycle in call graph, cannot inline'')"
    by (simp add: inline_new_classes_def)
qed

theorem cyclic_call_graph_fails_to_inline_witness:
  "\<not> isl (build_callgraph (example_storage example_g_calling_f)) \<and>
   cycle (projr (build_callgraph (example_storage example_g_calling_f)))
     [(''A'', ''f''), (''B'', ''g'')] \<and>
   calls_resolve (example_storage example_g_calling_f) \<and>
   inline_new_classes (blank_heap 13) (example_storage example_g_calling_f)
     = Inl (AssertionError ''detected cycle in call graph, cannot inline'')"
proof -
  let ?S = "example_storage example_g_calling_f"
  have a: "\<not> isl (build_callgraph ?S)" by code_simp
  then have g: "build_callgraph ?S = Inr (projr (build_callgraph ?S))"
    by (cases "build_callgraph ?S") simp_all
  have b: "cycle (projr (build_callgraph ?S)) [(''A'', ''f''), (''B'', ''g'')]" by code_simp
  have c: "calls_resolve ?S" by code_simp
  from cyclic_call_graph_fails_to_inline [where st = "?S" and g = "projr (build_callgraph ?S)"
      and ns = "[(''A'', ''f''), (''B'', ''g'')]" and h = "blank_heap 13"] g b c
  have "inline_new_classes (blank_heap 13) ?S
          = Inl (AssertionError ''detected cycle in call graph, cannot inline'')"
    by blast
  with a b c show ?thesis by blast
qed

text \<open>
  With \<open>A.f\<close> calling \<open>B.g\<close> and \<open>B.g\<close> calling \<open>A.f\<close>, the call graph has a cycle and
  inlining raises \<open>AssertionError\<close>, which is no \<open>RecursionError\<close>.
\<close>

theorem call_cycle_raises_AssertionError:
  "\<not> isl (build_callgraph (example_storage example_g_calling_f)) \<and>
   cycle (projr (build_callgraph (example_storage example_g_calling_f)))
     [(''A'', ''f''), (''B'', ''g'')] \<and>
   inline_new_classes (blank_heap 13) (example_storage example_g_calling_f)
     = Inl (AssertionError ''detected cycle in call graph, cannot inline'') \<and>
   inline_new_classes (blank_heap 13) (example_storage example_g_calling_f) \<noteq> Inl RecursionError"
proof -
  let ?S = "example_storage example_g_calling_f"
  let ?R = "inline_new_classes (blank_heap 13) ?S"
  have a: "\<not> isl (build_callgraph ?S)" by code_simp
  have b: "cycle (projr (build_callgraph ?S)) [(''A'', ''f''), (''B'', ''g'')]" by code_simp
  have c: "isl ?R" by code_simp
  have d: "projl ?R = AssertionError ''detected cycle in call graph, cannot inline''"
    by code_simp
  from c d have "?R = Inl (AssertionError ''detected cycle in call graph, cannot inline'')"
    by (cases ?R) simp_all
  with a b show ?thesis by simp
qed

section \<open>Properties of the ledger\<close>


lemma collect_serials_eq:
  "collect_serials acc xs = (if distinct xs \<and> set xs \<inter> set acc = {} then Some (acc @ xs) else None)"
  by (induction xs arbitrary: acc) (auto simp: add_to_set_check_unique_def)

lemma verify_accepted:
  assumes "verify_and_execute_transaction ops l t = (None, l')"
  shows "distinct (consumed_serials t)"
    and "set (consumed_serials t) \<inter> published_serial_numbers l = {}"
    and "unique_seed t \<notin> published_unique_seeds l"
    and "merkle_tree_root t = mt_get_root ops (merkle_tree l)"
    and "transaction.current_time t = current_time l"
    and "l' = perform_state_update ops l t (consumed_serials t)"
  using assms
  by (auto simp: verify_and_execute_transaction_def collect_serials_eq
      split: if_splits option.splits sum.splits verify_outcome.splits)

lemma verify_rejected_unchanged:
  "verify_and_execute_transaction ops l t = (Some e, l') \<Longrightarrow> l' = l"
  by (auto simp: verify_and_execute_transaction_def
      split: if_splits option.splits sum.splits verify_outcome.splits)

lemma verify_error_kinds:
  "verify_and_execute_transaction ops l t = (Some e, l') \<Longrightarrow>
     (\<exists>m. e = TxRejectedException m) \<or>
     (e = ValueError (''unknown function '' @ class_name t @ ''.'' @ transaction.function_name t @ '' or function not public'')
        \<and> serialized_functions l (class_name t, transaction.function_name t) = None)"
  by (auto simp: verify_and_execute_transaction_def get_serialized_function_def
      split: if_splits option.splits sum.splits verify_outcome.splits)



lemma perform_state_update_fields:
  "published_serial_numbers (perform_state_update ops l t s) = published_serial_numbers l \<union> set s"
  "published_unique_seeds (perform_state_update ops l t s) = insert (unique_seed t) (published_unique_seeds l)"
  by (simp_all add: perform_state_update_def split: prod.splits)

lemma verify_monotone:
  assumes "verify_and_execute_transaction ops l t = (r, l')"
  shows "published_serial_numbers l \<subseteq> published_serial_numbers l'"
    and "published_unique_seeds l \<subseteq> published_unique_seeds l'"
proof -
  show "published_serial_numbers l \<subseteq> published_serial_numbers l'"
  proof (cases r)
    case None
    with assms have "l' = perform_state_update ops l t (consumed_serials t)"
      by (simp add: verify_accepted(6))
    then show ?thesis by (simp add: perform_state_update_fields)
  next
    case (Some e)
    with assms have "l' = l" by (simp add: verify_rejected_unchanged)
    then show ?thesis by simp
  qed
  show "published_unique_seeds l \<subseteq> published_unique_seeds l'"
  proof (cases r)
    case None
    with assms have "l' = perform_state_update ops l t (consumed_serials t)"
      by (simp add: verify_accepted(6))
    then show ?thesis by (auto simp add: perform_state_update_fields)
  next
    case (Some e)
    with assms have "l' = l" by (simp add: verify_rejected_unchanged)
    then show ?thesis by simp
  qed
qed

lemma accepted_run_member:
  "(T, L) \<in> set (accepted_run ops l ts) \<Longrightarrow>
     published_serial_numbers l \<subseteq> published_serial_numbers L \<and>
     published_unique_seeds l \<subseteq> published_unique_seeds L \<and>
     (\<exists>l'. verify_and_execute_transaction ops L T = (None, l'))"
proof (induction ts arbitrary: l)
  case Nil
  then show ?case by simp
next
  case (Cons t ts)
  obtain r l' where v: "verify_and_execute_transaction ops l t = (r, l')"
    by (cases "verify_and_execute_transaction ops l t")
  note mono = verify_monotone [OF v]
  show ?case
  proof (cases r)
    case None
    with v Cons.prems have "(T, L) = (t, l) \<or> (T, L) \<in> set (accepted_run ops l' ts)"
      by simp
    then show ?thesis
    proof
      assume "(T, L) = (t, l)"
      with v None show ?thesis by auto
    next
      assume "(T, L) \<in> set (accepted_run ops l' ts)"
      from Cons.IH [OF this] mono show ?thesis by blast
    qed
  next
    case (Some e)
    with v Cons.prems have "(T, L) \<in> set (accepted_run ops l' ts)" by simp
    from Cons.IH [OF this] mono show ?thesis by blast
  qed
qed

lemma accepted_run_earlier:
  "i < j \<Longrightarrow> j < length (accepted_run ops l ts) \<Longrightarrow>
     set (consumed_serials (fst (accepted_run ops l ts ! i)))
        \<subseteq> published_serial_numbers (snd (accepted_run ops l ts ! j)) \<and>
     unique_seed (fst (accepted_run ops l ts ! i))
        \<in> published_unique_seeds (snd (accepted_run ops l ts ! j))"
proof (induction ts arbitrary: l i j)
  case Nil
  then show ?case by simp
next
  case (Cons t ts)
  obtain r l' where v: "verify_and_execute_transaction ops l t = (r, l')"
    by (cases "verify_and_execute_transaction ops l t")
  show ?case
  proof (cases r)
    case (Some e)
    with v Cons show ?thesis by simp
  next
    case None
    with v have run: "accepted_run ops l (t # ts) = (t, l) # accepted_run ops l' ts" by simp
    from Cons.prems obtain j' where j: "j = Suc j'" by (cases j) auto
    with Cons.prems run have j'len: "j' < length (accepted_run ops l' ts)" by simp
    show ?thesis
    proof (cases i)
      case 0
      from j'len have "accepted_run ops l' ts ! j' \<in> set (accepted_run ops l' ts)" by simp
      then have "(fst (accepted_run ops l' ts ! j'), snd (accepted_run ops l' ts ! j'))
                   \<in> set (accepted_run ops l' ts)" by simp
      from accepted_run_member [OF this]
      have sub: "published_serial_numbers l' \<subseteq> published_serial_numbers (snd (accepted_run ops l' ts ! j'))"
        and sub2: "published_unique_seeds l' \<subseteq> published_unique_seeds (snd (accepted_run ops l' ts ! j'))"
        by blast+
      from v None have l': "l' = perform_state_update ops l t (consumed_serials t)"
        by (simp add: verify_accepted(6))
      have "set (consumed_serials t) \<subseteq> published_serial_numbers l'"
        and "unique_seed t \<in> published_unique_seeds l'"
        by (simp_all add: l' perform_state_update_fields)
      with sub sub2 show ?thesis unfolding run j 0 by auto
    next
      case (Suc i')
      with Cons.prems j have "i' < j'" by simp
      from Cons.IH [OF this j'len] show ?thesis unfolding run j Suc by simp
    qed
  qed
qed

text \<open>
  Claim C2. In any sequence of \<open>verify_and_execute_transaction\<close> calls on a ledger, the
  \<open>j\<close>-th accepted transaction has mutually distinct serials, shares no serial and no
  seed with an earlier accepted transaction, and carries the Merkle root the ledger had
  when the call started, that is, just before its records were inserted.
\<close>

theorem accepted_transactions_are_fresh:
  assumes "j < length (accepted_run ops l ts)"
  shows "distinct (consumed_serials (fst (accepted_run ops l ts ! j))) \<and>
         (\<forall>i<j. set (consumed_serials (fst (accepted_run ops l ts ! i)))
                   \<inter> set (consumed_serials (fst (accepted_run ops l ts ! j))) = {}) \<and>
         (\<forall>i<j. unique_seed (fst (accepted_run ops l ts ! i))
                   \<noteq> unique_seed (fst (accepted_run ops l ts ! j))) \<and>
         merkle_tree_root (fst (accepted_run ops l ts ! j))
           = mt_get_root ops (merkle_tree (snd (accepted_run ops l ts ! j)))"
proof -
  let ?T = "fst (accepted_run ops l ts ! j)" and ?L = "snd (accepted_run ops l ts ! j)"
  from assms have "(?T, ?L) \<in> set (accepted_run ops l ts)" by simp
  from accepted_run_member [OF this]
  obtain l' where acc: "verify_and_execute_transaction ops ?L ?T = (None, l')" by blast
  note a = verify_accepted [OF acc]
  have "\<forall>i<j. set (consumed_serials (fst (accepted_run ops l ts ! i))) \<inter> set (consumed_serials ?T) = {}"
    using accepted_run_earlier [OF _ assms] a(2) by blast
  moreover have "\<forall>i<j. unique_seed (fst (accepted_run ops l ts ! i)) \<noteq> unique_seed ?T"
    using accepted_run_earlier [OF _ assms] a(3) by metis
  ultimately show ?thesis using a(1) a(4) by blast
qed


theorem accepted_transactions_are_fresh_witness:
  "1 < length (accepted_run list_tree_ops example_ledger example_txs) \<and>
   distinct (consumed_serials (fst (accepted_run list_tree_ops example_ledger example_txs ! 1))) \<and>
   set (consumed_serials (fst (accepted_run list_tree_ops example_ledger example_txs ! 0)))
        \<inter> set (consumed_serials (fst (accepted_run list_tree_ops example_ledger example_txs ! 1))) = {} \<and>
   unique_seed (fst (accepted_run list_tree_ops example_ledger example_txs ! 0))
        \<noteq> unique_seed (fst (accepted_run list_tree_ops example_ledger example_txs ! 1)) \<and>
   merkle_tree_root (fst (accepted_run list_tree_ops example_ledger example_txs ! 1))
     = mt_get_root list_tree_ops (merkle_tree (snd (accepted_run list_tree_ops example_ledger example_txs ! 1)))"
proof -
  have h: "1 < length (accepted_run list_tree_ops example_ledger example_txs)"
    by (simp add: example_txs_def verify_and_execute_transaction_def get_serialized_function_def
          example_ledger_def example_tx_def list_tree_ops_def add_to_set_check_unique_def
          perform_state_update_def example_function_def)
  have z: "(0::nat) < 1" by simp
  show ?thesis
    using h z accepted_transactions_are_fresh [OF h] by blast
qed

lemma register_classes_keeps_published:
  "published_serial_numbers (snd (register_classes sops l classes)) = published_serial_numbers l"
  "published_unique_seeds (snd (register_classes sops l classes)) = published_unique_seeds l"
  by (simp_all add: register_classes_def Let_def split: prod.splits option.splits)

lemma perform_monotone:
  "published_serial_numbers l \<subseteq> published_serial_numbers (perform ops sops c l) \<and>
   published_unique_seeds l \<subseteq> published_unique_seeds (perform ops sops c l)"
proof (cases c)
  case (VerifyAndExecuteTransaction t)
  obtain r l' where v: "verify_and_execute_transaction ops l t = (r, l')"
    by (cases "verify_and_execute_transaction ops l t")
  from verify_monotone [OF v] v VerifyAndExecuteTransaction show ?thesis by simp
next
  case (RegisterClasses classes)
  then show ?thesis by (simp add: register_classes_keeps_published)
next
  case (TestIncreaseCurrentTimeBy amount)
  then show ?thesis by (simp add: test_increase_current_time_by_def)
qed

lemma fold_perform_monotone:
  "published_serial_numbers l \<subseteq> published_serial_numbers (fold (perform ops sops) calls l) \<and>
   published_unique_seeds l \<subseteq> published_unique_seeds (fold (perform ops sops) calls l)"
proof (induction calls arbitrary: l)
  case Nil
  then show ?case by simp
next
  case (Cons c calls)
  from perform_monotone [of l ops sops c] Cons.IH [of "perform ops sops c l"]
  show ?case by (simp del: perform.simps) blast
qed

lemma verify_rejects_published_serial:
  assumes "s \<in> published_serial_numbers l" and "s \<in> set (consumed_serials t)"
  shows "\<exists>m. fst (verify_and_execute_transaction ops l t) = Some (TxRejectedException m)"
  using assms
  by (auto simp: verify_and_execute_transaction_def collect_serials_eq split: if_splits)

lemma verify_rejects_published_seed:
  assumes "unique_seed t \<in> published_unique_seeds l"
  shows "\<exists>m. fst (verify_and_execute_transaction ops l t) = Some (TxRejectedException m)"
  using assms
  by (auto simp: verify_and_execute_transaction_def collect_serials_eq split: if_splits)

text \<open>
  Claim C9. No sequence of ledger operations (transactions accepted or rejected, class
  registrations that succeed or fail, changes of the time) removes a published serial
  or seed, whatever the storage, the verifier and the Merkle tree do; so a transaction
  that consumes a serial published before the sequence is rejected after it.
\<close>

theorem published_sets_only_grow:
  "published_serial_numbers l \<subseteq> published_serial_numbers (fold (perform ops sops) calls l) \<and>
   published_unique_seeds l \<subseteq> published_unique_seeds (fold (perform ops sops) calls l) \<and>
   (s \<in> published_serial_numbers l \<and> s \<in> set (consumed_serials t) \<longrightarrow>
      (\<exists>m. fst (verify_and_execute_transaction ops (fold (perform ops sops) calls l) t)
              = Some (TxRejectedException m)))"
proof (intro conjI impI)
  show "published_serial_numbers l \<subseteq> published_serial_numbers (fold (perform ops sops) calls l)"
    using fold_perform_monotone by blast
  show "published_unique_seeds l \<subseteq> published_unique_seeds (fold (perform ops sops) calls l)"
    using fold_perform_monotone by blast
next
  assume a: "s \<in> published_serial_numbers l \<and> s \<in> set (consumed_serials t)"
  with fold_perform_monotone [of l ops sops calls]
  have "s \<in> published_serial_numbers (fold (perform ops sops) calls l)" by blast
  with a show "\<exists>m. fst (verify_and_execute_transaction ops (fold (perform ops sops) calls l) t)
              = Some (TxRejectedException m)"
    by (simp add: verify_rejects_published_serial)
qed

theorem published_sets_only_grow_witness:
  "''1'' \<in> published_serial_numbers
            (perform list_tree_ops unit_storage_ops (example_calls ! 0) example_ledger) \<and>
   ''1'' \<in> set (consumed_serials (example_txs ! 1)) \<and>
   (\<exists>m. fst (verify_and_execute_transaction list_tree_ops
              (fold (perform list_tree_ops unit_storage_ops) (tl example_calls)
                 (perform list_tree_ops unit_storage_ops (example_calls ! 0) example_ledger))
              (example_txs ! 1))
          = Some (TxRejectedException m))"
proof -
  have a: "''1'' \<in> published_serial_numbers
            (perform list_tree_ops unit_storage_ops (example_calls ! 0) example_ledger)"
    by (simp add: example_calls_def example_txs_def verify_and_execute_transaction_def
          get_serialized_function_def example_ledger_def example_tx_def list_tree_ops_def
          add_to_set_check_unique_def perform_state_update_def example_function_def)
  have b: "''1'' \<in> set (consumed_serials (example_txs ! 1))"
    by (simp add: example_txs_def example_tx_def)
  from a b published_sets_only_grow
      [of "perform list_tree_ops unit_storage_ops (example_calls ! 0) example_ledger"
          list_tree_ops unit_storage_ops "tl example_calls" "''1''" "example_txs ! 1"]
  show ?thesis by blast
qed

text \<open>
  Claim C1 fails on the code for one of the failures it lists: a transaction that names
  an unknown (or private) function passes the five checks, and the lookup
  \<open>get_serialized_function\<close> then raises \<open>ValueError\<close>, which the method does not turn
  into \<open>TxRejectedException\<close> (as it does for every exception of the verifier). The
  ledger is unchanged there as well; see \<open>verify_rejected_unchanged\<close> and
  \<open>verify_error_kinds\<close> for all inputs.
\<close>

theorem unknown_function_raises_ValueError:
  "verify_and_execute_transaction list_tree_ops example_ledger
         (example_tx ''g'' [] [''1'', ''2''] [''0acf'', ''11ce''] ''3cf102a'')
       = (Some (ValueError ''unknown function Class.g or function not public''), example_ledger)"
  by (simp add: verify_and_execute_transaction_def get_serialized_function_def example_ledger_def
        example_tx_def list_tree_ops_def add_to_set_check_unique_def)

end
